theory Spec2Isabelle
  imports Main "HOL-Library.Word"
begin

section \<open>Data and hardware operations\<close>

text \<open>
  The module \<^verbatim>\<open>SSD1306Func.cpp\<close> drives an \<^verbatim>\<open>Adafruit_SSD1306\<close> display, the Arduino
  clock (\<^verbatim>\<open>millis\<close>, \<^verbatim>\<open>delay\<close>), the serial port and the GPIO pins. None of these is part
  of the module, so a function of the module is modelled by the sequence of calls it
  makes on them, in program order.

  Integer types. \<^verbatim>\<open>int16_t\<close> is a 16-bit word read with \<open>sint\<close>, \<^verbatim>\<open>uint8_t\<close> an 8-bit
  word read with \<open>unat\<close>: a store into such a variable wraps around. The clock
  \<^verbatim>\<open>millis()\<close> is an \<^verbatim>\<open>unsigned long\<close> of 32 bits that wraps around; the gates keep its
  readings in \<^verbatim>\<open>long\<close> variables, which hold the same 32 bits read with \<open>sint\<close>, and a
  difference of two readings is taken in 32 bits, two's complement. The other values of
  type \<^verbatim>\<open>int\<close> and \<^verbatim>\<open>long\<close> (loop counters, delays, the timeout) are modelled by \<open>int\<close>:
  their overflow is undefined behaviour in C++ and is outside the model.
\<close>

type_synonym int16_t = "16 word"
type_synonym uint8_t = "8 word"
type_synonym uint32_t = "32 word"

text \<open>\<^verbatim>\<open>struct ImageByteArray\<close> of the header file.\<close>

record Image =
  bitmap :: "uint8_t list"
  width :: int
  height :: int

abbreviation ON :: nat where "ON \<equiv> 1"
abbreviation OFF :: nat where "OFF \<equiv> 0"

text \<open>
  One constructor for each call the modelled functions make. \<open>DrawBitmap x y bmp c\<close> is
  \<^verbatim>\<open>display->drawBitmap(x, y, bmp.bitmap, bmp.width, bmp.height, c)\<close>, whose coordinates
  are \<^verbatim>\<open>int16_t\<close> parameters; \<open>Display\<close> is \<^verbatim>\<open>display->display()\<close>, which presents the
  frame. \<open>WriteChar\<close> and \<open>WriteStr\<close> are the two overloads of \<^verbatim>\<open>display->write\<close>. The
  last four record what the program reads from its environment.
\<close>

datatype hw_op =
    DrawBitmap int16_t int16_t Image nat
  | Display
  | Delay int
  | SetCursor int int
  | SetTextColor nat
  | WriteChar char
  | WriteStr string
  | CallCtcSerial
  | CallCtcTimedSerial int
  | SerialAvailable bool
  | SerialRead
  | Millis uint32_t
  | DigitalRead uint8_t bool

section \<open>Vertical scrolling (lines 257--310)\<close>

text \<open>
  Lines 265--269: \<^verbatim>\<open>end_y\<close> is overwritten by the absolute row where scrolling stops.
  \<^verbatim>\<open>end_y + 64\<close> is computed in \<^verbatim>\<open>int\<close>; the assignments store into the \<^verbatim>\<open>int16_t\<close>
  parameter.
\<close>

definition resolve_end_y :: "int \<Rightarrow> bool \<Rightarrow> int16_t \<Rightarrow> Image \<Rightarrow> int16_t" where
  "resolve_end_y scrollstep allowoverflow end_y bmp =
     (if scrollstep > 0 \<and> sint end_y \<le> 0 then word_of_int (height bmp)
      else if scrollstep > 0 \<and> sint end_y + 64 > height bmp \<and> \<not> allowoverflow
        then word_of_int (height bmp)
      else if scrollstep > 0 then end_y + 64
      else if scrollstep < 0 \<and> sint end_y + 64 > height bmp \<and> \<not> allowoverflow
        then word_of_int (height bmp - 64)
      else if scrollstep < 0 \<and> sint end_y < 0 \<and> \<not> allowoverflow then 0
      else end_y)"

text \<open>
  Lines 276--287, the loop of the downward scroll. The local \<^verbatim>\<open>height\<close> is \<open>hgt\<close>; the
  calls made so far are \<open>log\<close>. The loop is only reached with \<^verbatim>\<open>scrollstep > 0\<close>
  (line 275); as a function of an arbitrary step it need not return, which is the value
  \<open>None\<close>.
\<close>

partial_function (option) scroll_down_loop ::
  "int \<Rightarrow> int \<Rightarrow> bool \<Rightarrow> int16_t \<Rightarrow> int16_t \<Rightarrow> int16_t \<Rightarrow> Image \<Rightarrow> int \<Rightarrow> hw_op list
     \<Rightarrow> hw_op list option"
where
  "scroll_down_loop scrolldelay scrollstep snaptoend offset_x offset_y end_y bmp hgt log =
     (if hgt + 64 - sint offset_y < sint end_y then
        (let log1 = log @ [DrawBitmap offset_x (word_of_int (- hgt + sint offset_y)) bmp OFF]
         in
           if hgt + 64 - sint offset_y + scrollstep < sint end_y then
             scroll_down_loop scrolldelay scrollstep snaptoend offset_x offset_y end_y bmp
               (hgt + scrollstep)
               (log1 @ [DrawBitmap offset_x
                          (word_of_int (- (hgt + scrollstep) + sint offset_y)) bmp ON,
                        Display, Delay scrolldelay])
           else if hgt + 64 - sint offset_y < sint end_y \<and> \<not> snaptoend then
             scroll_down_loop scrolldelay scrollstep snaptoend offset_x offset_y end_y bmp
               (hgt + 1)
               (log1 @ [DrawBitmap offset_x (word_of_int (- (hgt + 1) + sint offset_y)) bmp ON,
                        Display, Delay scrolldelay])
           else Some log1)
      else Some log)"

declare scroll_down_loop.simps [code]

text \<open>Lines 293--304, the loop of the upward scroll (\<^verbatim>\<open>scrollstep < 0\<close>, line 292).\<close>

partial_function (option) scroll_up_loop ::
  "int \<Rightarrow> int \<Rightarrow> bool \<Rightarrow> int16_t \<Rightarrow> int16_t \<Rightarrow> Image \<Rightarrow> int \<Rightarrow> hw_op list
     \<Rightarrow> hw_op list option"
where
  "scroll_up_loop scrolldelay scrollstep snaptoend offset_x end_y bmp hgt log =
     (if hgt < - sint end_y then
        (let log1 = log @ [DrawBitmap offset_x (word_of_int hgt) bmp OFF]
         in
           if hgt - scrollstep \<le> - sint end_y then
             scroll_up_loop scrolldelay scrollstep snaptoend offset_x end_y bmp
               (hgt - scrollstep)
               (log1 @ [DrawBitmap offset_x (word_of_int (hgt - scrollstep)) bmp ON,
                        Display, Delay scrolldelay])
           else if hgt \<le> - sint end_y \<and> \<not> snaptoend then
             scroll_up_loop scrolldelay scrollstep snaptoend offset_x end_y bmp
               (hgt + 1)
               (log1 @ [DrawBitmap offset_x (word_of_int (hgt + 1)) bmp ON,
                        Display, Delay scrolldelay])
           else Some log1)
      else Some log)"

declare scroll_up_loop.simps [code]

text \<open>
  The whole function, lines 257--310; the parameters in the order of the source. The
  calls after the loops are lines 289--291 for the downward scroll and lines 306--308 for
  the upward one.
\<close>

definition drawVerticalScrollingBitmap ::
  "int \<Rightarrow> int \<Rightarrow> int \<Rightarrow> int \<Rightarrow> bool \<Rightarrow> bool \<Rightarrow> int16_t \<Rightarrow> int16_t \<Rightarrow> int16_t \<Rightarrow> Image
     \<Rightarrow> hw_op list option"
where
  "drawVerticalScrollingBitmap initialdelay enddelay scrolldelay scrollstep snaptoend
       allowoverflow offset_x offset_y end_y bmp =
     (let initialdelay = (if initialdelay < 0 then 500 else initialdelay);
          enddelay = (if enddelay < 0 then 500 else enddelay);
          scrolldelay = (if scrolldelay < 0 then 5 else scrolldelay);
          end_y = resolve_end_y scrollstep allowoverflow end_y bmp;
          log = [DrawBitmap offset_x offset_y bmp ON, Display, Delay initialdelay]
      in
        if scrollstep > 0 then
          (case scroll_down_loop scrolldelay scrollstep snaptoend offset_x offset_y end_y bmp
                  0 log of
             None \<Rightarrow> None
           | Some log' \<Rightarrow>
               Some (log' @ [DrawBitmap offset_x (word_of_int (- (sint end_y - 64))) bmp ON,
                             Display, Delay enddelay]))
        else if scrollstep < 0 then
          (case scroll_up_loop scrolldelay scrollstep snaptoend offset_x end_y bmp
                  (sint offset_y) log of
             None \<Rightarrow> None
           | Some log' \<Rightarrow>
               Some (log' @ [DrawBitmap offset_x (word_of_int (- sint end_y)) bmp ON,
                             Display, Delay enddelay]))
        else Some log)"

text \<open>
  The end offset as section 4.1 of the specification words it, over the integers: the
  downward rule for a positive step, the upward rule otherwise.
\<close>

definition spec_endY :: "int \<Rightarrow> bool \<Rightarrow> int \<Rightarrow> int \<Rightarrow> int" where
  "spec_endY stepPixels allowOverflow endMarker bitmap_height =
     (if stepPixels > 0 then
        (if endMarker \<le> 0 then bitmap_height
         else if endMarker + 64 > bitmap_height \<and> \<not> allowOverflow then bitmap_height
         else endMarker + 64)
      else
        (if endMarker + 64 > bitmap_height \<and> \<not> allowOverflow then bitmap_height - 64
         else if endMarker < 0 \<and> \<not> allowOverflow then 0
         else endMarker))"

text \<open>The value an \<^verbatim>\<open>int\<close> has once it is stored in an \<^verbatim>\<open>int16_t\<close> variable.\<close>

definition as_int16 :: "int \<Rightarrow> int" where
  "as_int16 k = sint (word_of_int k :: int16_t)"

text \<open>The \<^verbatim>\<open>y\<close> coordinates of the frames drawn (colour \<^verbatim>\<open>ON\<close>), in order.\<close>

fun frames :: "hw_op list \<Rightarrow> int list" where
  "frames [] = []"
| "frames (DrawBitmap x y bmp c # ops) = (if c = ON then sint y # frames ops else frames ops)"
| "frames (_ # ops) = frames ops"

text \<open>The distances between consecutive frames: how far each step moved the bitmap.\<close>

fun step_sizes :: "int list \<Rightarrow> int list" where
  "step_sizes (a # b # ys) = (a - b) # step_sizes (b # ys)"
| "step_sizes _ = []"


section \<open>Dialog text (lines 327--446)\<close>

text \<open>The character that asks for a confirmation in the middle of a dialog (backquote).\<close>

definition marker :: char where
  "marker = CHR 0x60"

text \<open>
  \<^verbatim>\<open>dialog[k]\<close> for a C string: its characters, then the terminating zero byte. A read
  further out has no defined result.
\<close>

definition char_at :: "string \<Rightarrow> int \<Rightarrow> char option" where
  "char_at s k =
     (if 0 \<le> k \<and> k < int (length s) then Some (s ! nat k)
      else if k = int (length s) then Some (CHR 0x00)
      else None)"

text \<open>
  Lines 345--352, the \<^verbatim>\<open>for\<close> loop of \<^verbatim>\<open>drawDialogText\<close>: one tick of \<^verbatim>\<open>textspeed\<close>
  characters from index \<open>i\<close>. \<open>textspeed\<close> is the \<^verbatim>\<open>uint8_t\<close> parameter promoted to
  \<^verbatim>\<open>int\<close>. A call of \<^verbatim>\<open>ctcSerial\<close> is the operation \<open>CallCtcSerial\<close>: the log is that of a
  run in which every such call returns.
\<close>

function dialog_tick :: "string \<Rightarrow> int \<Rightarrow> int \<Rightarrow> int \<Rightarrow> int \<Rightarrow> hw_op list \<Rightarrow> hw_op list option"
where
  "dialog_tick dialog textspeed chardelay i x log =
     (if x < textspeed then
        (case char_at dialog (i + x) of
           None \<Rightarrow> None
         | Some c \<Rightarrow>
             if c \<noteq> marker then
               dialog_tick dialog textspeed chardelay i (x + 1) (log @ [WriteChar c])
             else
               dialog_tick dialog textspeed chardelay i (x + 1)
                 (log @ [Display, Delay chardelay, CallCtcSerial]))
      else Some log)"
  by pat_completeness auto
termination
  by (relation "measure (\<lambda>(dialog, textspeed, chardelay, i, x, log). nat (textspeed - x))") auto

declare dialog_tick.simps [simp del]

text \<open>
  Lines 344--357, the first \<^verbatim>\<open>while\<close> loop: whole ticks while more than \<^verbatim>\<open>textspeed\<close>
  characters remain. It returns the index reached and the log. With a step of zero it
  would not return (\<open>None\<close>); line 329 excludes that.
\<close>

partial_function (option) dialog_loop1 ::
  "string \<Rightarrow> int \<Rightarrow> int \<Rightarrow> int \<Rightarrow> int \<Rightarrow> hw_op list \<Rightarrow> (int \<times> hw_op list) option"
where
  "dialog_loop1 dialog sz textspeed chardelay i log =
     (if i + textspeed < sz then
        Option.bind (dialog_tick dialog textspeed chardelay i 0 log)
          (\<lambda>log1. dialog_loop1 dialog sz textspeed chardelay (i + textspeed)
                     (log1 @ [Display, Delay chardelay]))
      else Some (i, log))"

declare dialog_loop1.simps [code]

text \<open>Lines 359--367, the second \<^verbatim>\<open>while\<close> loop: the remaining characters one by one.\<close>

function dialog_tail :: "string \<Rightarrow> int \<Rightarrow> int \<Rightarrow> int \<Rightarrow> hw_op list \<Rightarrow> hw_op list option"
where
  "dialog_tail dialog sz chardelay i log =
     (if i < sz then
        (case char_at dialog i of
           None \<Rightarrow> None
         | Some c \<Rightarrow>
             if c \<noteq> marker then
               dialog_tail dialog sz chardelay (i + 1)
                 (log @ [WriteChar c, Display, Delay chardelay])
             else
               dialog_tail dialog sz chardelay (i + 1) (log @ [CallCtcSerial]))
      else Some log)"
  by pat_completeness auto
termination
  by (relation "measure (\<lambda>(dialog, sz, chardelay, i, log). nat (sz - i))") auto

declare dialog_tail.simps [simp del]

text \<open>
  \<^verbatim>\<open>drawDialogText\<close>, lines 327--377. \<^verbatim>\<open>textspeed\<close> and \<^verbatim>\<open>onebyone\<close> are \<^verbatim>\<open>uint8_t\<close>, the
  delays \<^verbatim>\<open>long\<close>; \<open>sz\<close> is the local \<^verbatim>\<open>size\<close>.
\<close>

definition drawDialogText ::
  "uint8_t \<Rightarrow> int \<Rightarrow> int \<Rightarrow> uint8_t \<Rightarrow> string \<Rightarrow> string \<Rightarrow> hw_op list option"
where
  "drawDialogText textspeed chardelay headerdelay onebyone headertext dialog =
     (let textspeed = (if uint textspeed \<le> 0 then 1 else textspeed);
          chardelay = (if chardelay < 0 then 10 else chardelay);
          headerdelay = (if headerdelay < 0 then 200 else headerdelay);
          sz = int (length dialog);
          log = [SetCursor 0 0, WriteStr headertext, Display, Delay headerdelay,
                 SetCursor 0 16]
      in
        if onebyone \<noteq> 0 then
          (case dialog_loop1 dialog sz (uint textspeed) chardelay 0 log of
             None \<Rightarrow> None
           | Some (i, log1) \<Rightarrow>
               (case dialog_tail dialog sz chardelay i log1 of
                  None \<Rightarrow> None
                | Some log2 \<Rightarrow> Some (log2 @ [CallCtcSerial])))
        else Some (log @ [WriteStr dialog, Display, Delay 1, CallCtcSerial]))"

text \<open>
  \<^verbatim>\<open>drawTimedDialogText\<close>, lines 390--446: the same loops, where a marker calls
  \<^verbatim>\<open>ctcTimedSerial(display, timer)\<close> when \<^verbatim>\<open>timedinput\<close> is set and \<^verbatim>\<open>ctcSerial\<close> otherwise
  (lines 409--417, 408--422 and 424--435).
\<close>

function timed_dialog_tick ::
  "string \<Rightarrow> int \<Rightarrow> int \<Rightarrow> int \<Rightarrow> uint8_t \<Rightarrow> int \<Rightarrow> int \<Rightarrow> hw_op list \<Rightarrow> hw_op list option"
where
  "timed_dialog_tick dialog textspeed chardelay timer timedinput i x log =
     (if x < textspeed then
        (case char_at dialog (i + x) of
           None \<Rightarrow> None
         | Some c \<Rightarrow>
             if c \<noteq> marker then
               timed_dialog_tick dialog textspeed chardelay timer timedinput i (x + 1)
                 (log @ [WriteChar c])
             else if timedinput \<noteq> 0 then
               timed_dialog_tick dialog textspeed chardelay timer timedinput i (x + 1)
                 (log @ [Display, Delay chardelay, CallCtcTimedSerial timer])
             else
               timed_dialog_tick dialog textspeed chardelay timer timedinput i (x + 1)
                 (log @ [Display, Delay chardelay, CallCtcSerial]))
      else Some log)"
  by pat_completeness auto
termination
  by (relation "measure (\<lambda>(dialog, textspeed, chardelay, timer, timedinput, i, x, log).
                  nat (textspeed - x))") auto

declare timed_dialog_tick.simps [simp del]

partial_function (option) timed_dialog_loop1 ::
  "string \<Rightarrow> int \<Rightarrow> int \<Rightarrow> int \<Rightarrow> int \<Rightarrow> uint8_t \<Rightarrow> int \<Rightarrow> hw_op list
     \<Rightarrow> (int \<times> hw_op list) option"
where
  "timed_dialog_loop1 dialog sz textspeed chardelay timer timedinput i log =
     (if i + textspeed < sz then
        Option.bind (timed_dialog_tick dialog textspeed chardelay timer timedinput i 0 log)
          (\<lambda>log1. timed_dialog_loop1 dialog sz textspeed chardelay timer timedinput
                     (i + textspeed) (log1 @ [Display, Delay chardelay]))
      else Some (i, log))"

declare timed_dialog_loop1.simps [code]

function timed_dialog_tail ::
  "string \<Rightarrow> int \<Rightarrow> int \<Rightarrow> int \<Rightarrow> uint8_t \<Rightarrow> int \<Rightarrow> hw_op list \<Rightarrow> hw_op list option"
where
  "timed_dialog_tail dialog sz chardelay timer timedinput i log =
     (if i < sz then
        (case char_at dialog i of
           None \<Rightarrow> None
         | Some c \<Rightarrow>
             if c \<noteq> marker then
               timed_dialog_tail dialog sz chardelay timer timedinput (i + 1)
                 (log @ [WriteChar c, Display, Delay chardelay])
             else if timedinput \<noteq> 0 then
               timed_dialog_tail dialog sz chardelay timer timedinput (i + 1)
                 (log @ [CallCtcTimedSerial timer])
             else
               timed_dialog_tail dialog sz chardelay timer timedinput (i + 1)
                 (log @ [CallCtcSerial]))
      else Some log)"
  by pat_completeness auto
termination
  by (relation "measure (\<lambda>(dialog, sz, chardelay, timer, timedinput, i, log). nat (sz - i))")
     auto

declare timed_dialog_tail.simps [simp del]

definition drawTimedDialogText ::
  "uint8_t \<Rightarrow> int \<Rightarrow> int \<Rightarrow> int \<Rightarrow> uint8_t \<Rightarrow> uint8_t \<Rightarrow> uint8_t \<Rightarrow> string \<Rightarrow> string
     \<Rightarrow> hw_op list option"
where
  "drawTimedDialogText textspeed chardelay headerdelay timer timedinput timedend onebyone
       headertext dialog =
     (let textspeed = (if uint textspeed \<le> 0 then 1 else textspeed);
          chardelay = (if chardelay < 0 then 10 else chardelay);
          headerdelay = (if headerdelay < 0 then 200 else headerdelay);
          timer = (if timer < 0 then 10000 else timer);
          sz = int (length dialog);
          log = [SetCursor 0 0, WriteStr headertext, Display, Delay headerdelay,
                 SetCursor 0 16];
          closing = (if timedend \<noteq> 0 then CallCtcTimedSerial timer else CallCtcSerial)
      in
        if onebyone \<noteq> 0 then
          (case timed_dialog_loop1 dialog sz (uint textspeed) chardelay timer timedinput 0 log of
             None \<Rightarrow> None
           | Some (i, log1) \<Rightarrow>
               (case timed_dialog_tail dialog sz chardelay timer timedinput i log1 of
                  None \<Rightarrow> None
                | Some log2 \<Rightarrow> Some (log2 @ [closing])))
        else Some (log @ [WriteStr dialog, Display, Delay 1, closing]))"

text \<open>What a log shows of the text: the characters written, and the calls of a gate.\<close>

fun written :: "hw_op list \<Rightarrow> string" where
  "written [] = []"
| "written (WriteChar c # ops) = c # written ops"
| "written (WriteStr s # ops) = s @ written ops"
| "written (_ # ops) = written ops"

fun gate_calls :: "hw_op list \<Rightarrow> nat" where
  "gate_calls [] = 0"
| "gate_calls (CallCtcSerial # ops) = Suc (gate_calls ops)"
| "gate_calls (CallCtcTimedSerial t # ops) = Suc (gate_calls ops)"
| "gate_calls (_ # ops) = gate_calls ops"

text \<open>
  The operations of one character in a whole tick and in the trailing part, of a whole
  tick, and the ticks of a dialog: \<open>n\<close> pieces of \<open>ts\<close> characters each.
\<close>

definition tick_char :: "hw_op \<Rightarrow> int \<Rightarrow> char \<Rightarrow> hw_op list" where
  "tick_char gate chardelay c =
     (if c \<noteq> marker then [WriteChar c] else [Display, Delay chardelay, gate])"

definition tail_char :: "hw_op \<Rightarrow> int \<Rightarrow> char \<Rightarrow> hw_op list" where
  "tail_char gate chardelay c =
     (if c \<noteq> marker then [WriteChar c, Display, Delay chardelay] else [gate])"

definition whole_tick :: "hw_op \<Rightarrow> int \<Rightarrow> string \<Rightarrow> hw_op list" where
  "whole_tick gate chardelay cs =
     concat (map (tick_char gate chardelay) cs) @ [Display, Delay chardelay]"

definition ticks :: "nat \<Rightarrow> nat \<Rightarrow> string \<Rightarrow> string list" where
  "ticks ts n dialog = map (\<lambda>j. take ts (drop (j * ts) dialog)) [0..<n]"

text \<open>The number of whole ticks the first loop runs on a dialog of \<open>sz\<close> characters.\<close>

definition whole_ticks :: "nat \<Rightarrow> nat \<Rightarrow> nat" where
  "whole_ticks ts sz = (sz - 1) div ts"

text \<open>
  The operations of the one-by-one mode in closed form: the whole ticks, then the
  trailing characters; \<open>gate\<close> is the call a marker makes.
\<close>

definition reveal_ops :: "hw_op \<Rightarrow> nat \<Rightarrow> int \<Rightarrow> string \<Rightarrow> hw_op list" where
  "reveal_ops gate ts chardelay dialog =
     concat (map (whole_tick gate chardelay) (ticks ts (whole_ticks ts (length dialog)) dialog))
     @ concat (map (tail_char gate chardelay)
                 (drop (whole_ticks ts (length dialog) * ts) dialog))"

text \<open>The gate that \<^verbatim>\<open>drawTimedDialogText\<close> calls (lines 414--415, 431--432, 444--445).\<close>

definition mid_gate :: "uint8_t \<Rightarrow> int \<Rightarrow> hw_op" where
  "mid_gate timed timer = (if timed \<noteq> 0 then CallCtcTimedSerial timer else CallCtcSerial)"

section \<open>Click to confirm (lines 471--609)\<close>

text \<open>
  The machine the gates run on: the cursor and the text colour of the display, the
  input the program will read, and the log of its calls. \<open>serial_in\<close>, \<open>clock\<close> and
  \<open>pin_in\<close> hold the results of the coming calls of \<^verbatim>\<open>Serial.available()\<close> (is a byte
  waiting), \<^verbatim>\<open>millis()\<close> (an \<^verbatim>\<open>unsigned long\<close>) and \<^verbatim>\<open>digitalRead\<close>, in order; a gate
  that needs a result beyond them has not returned within the observed input, which is
  \<open>None\<close>.
  \<open>gfx_write\<close> is where \<^verbatim>\<open>Adafruit_GFX::write\<close> leaves the cursor after a string; the
  library is not part of the module.
\<close>

record machine =
  cursor_x :: int
  cursor_y :: int
  textcolor :: nat
  gfx_write :: "int \<times> int \<Rightarrow> string \<Rightarrow> int \<times> int"
  serial_in :: "bool list"
  clock :: "uint32_t list"
  pin_in :: "bool list"
  oplog :: "hw_op list"

definition setCursor :: "int \<Rightarrow> int \<Rightarrow> machine \<Rightarrow> machine" where
  "setCursor x y m = m\<lparr>cursor_x := x, cursor_y := y, oplog := oplog m @ [SetCursor x y]\<rparr>"

definition setTextColor :: "nat \<Rightarrow> machine \<Rightarrow> machine" where
  "setTextColor c m = m\<lparr>textcolor := c, oplog := oplog m @ [SetTextColor c]\<rparr>"

definition write_str :: "string \<Rightarrow> machine \<Rightarrow> machine" where
  "write_str s m =
     m\<lparr>cursor_x := fst (gfx_write m (cursor_x m, cursor_y m) s),
       cursor_y := snd (gfx_write m (cursor_x m, cursor_y m) s),
       oplog := oplog m @ [WriteStr s]\<rparr>"

definition display_frame :: "machine \<Rightarrow> machine" where
  "display_frame m = m\<lparr>oplog := oplog m @ [Display]\<rparr>"

definition Serial_available :: "machine \<Rightarrow> (bool \<times> machine) option" where
  "Serial_available m =
     (case serial_in m of
        [] \<Rightarrow> None
      | a # rest \<Rightarrow> Some (a, m\<lparr>serial_in := rest, oplog := oplog m @ [SerialAvailable a]\<rparr>))"

definition Serial_read :: "machine \<Rightarrow> machine" where
  "Serial_read m = m\<lparr>oplog := oplog m @ [SerialRead]\<rparr>"

definition millis :: "machine \<Rightarrow> (uint32_t \<times> machine) option" where
  "millis m =
     (case clock m of
        [] \<Rightarrow> None
      | t # rest \<Rightarrow> Some (t, m\<lparr>clock := rest, oplog := oplog m @ [Millis t]\<rparr>))"

definition digitalRead :: "uint8_t \<Rightarrow> machine \<Rightarrow> (bool \<times> machine) option" where
  "digitalRead pin m =
     (case pin_in m of
        [] \<Rightarrow> None
      | v # rest \<Rightarrow> Some (v, m\<lparr>pin_in := rest, oplog := oplog m @ [DigitalRead pin v]\<rparr>))"

text \<open>\<^verbatim>\<open>while (Serial.available()) Serial.read();\<close> (lines 476, 498, 511, 534, 573, 583, 606).\<close>

function serial_flush :: "machine \<Rightarrow> machine option" where
  "serial_flush m =
     (case Serial_available m of
        None \<Rightarrow> None
      | Some (a, m1) \<Rightarrow> if a then serial_flush (Serial_read m1) else Some m1)"
  by pat_completeness auto
termination
  by (relation "measure (\<lambda>m. length (serial_in m))")
     (auto simp: Serial_available_def Serial_read_def split: list.splits)

declare serial_flush.simps [simp del]

text \<open>Lines 486--489 (and 522--525, 561--564, 594--597): the indicator is redrawn.\<close>

definition draw_indicator :: "uint8_t \<Rightarrow> machine \<Rightarrow> machine" where
  "draw_indicator color m =
     display_frame (write_str ''>>'' (setTextColor (unat color) (setCursor 116 0 m)))"

text \<open>\<^verbatim>\<open>color = !color\<close> on a \<^verbatim>\<open>uint8_t\<close>.\<close>

definition toggle :: "uint8_t \<Rightarrow> uint8_t" where
  "toggle color = (if color = 0 then 1 else 0)"

text \<open>
  Lines 481--491, the waiting loop of \<^verbatim>\<open>ctcSerial\<close>, with its locals \<open>prev\<close> and \<open>color\<close>.
  \<open>prev\<close> and \<open>now\<close> are \<^verbatim>\<open>long\<close> variables that hold readings of the clock; \<^verbatim>\<open>now - prev\<close> is
  their difference in 32 bits, read as a signed number.
\<close>

function ctcSerial_wait :: "uint32_t \<Rightarrow> uint8_t \<Rightarrow> machine \<Rightarrow> machine option" where
  "ctcSerial_wait prev color m =
     (case Serial_available m of
        None \<Rightarrow> None
      | Some (a, m1) \<Rightarrow>
          if \<not> a then
            (case millis m1 of
               None \<Rightarrow> None
             | Some (now, m2) \<Rightarrow>
                 if sint (now - prev) > 500 then
                   ctcSerial_wait now (toggle color) (draw_indicator (toggle color) m2)
                 else ctcSerial_wait prev color m2)
          else Some m1)"
  by pat_completeness auto
termination
  by (relation "measure (\<lambda>(prev, color, m). length (serial_in m))")
     (auto simp: Serial_available_def millis_def draw_indicator_def display_frame_def
        write_str_def setTextColor_def setCursor_def split: list.splits)

declare ctcSerial_wait.simps [simp del]

text \<open>\<^verbatim>\<open>ctcSerial\<close>, lines 471--501.\<close>

definition ctcSerial :: "machine \<Rightarrow> machine option" where
  "ctcSerial m =
     (let baseX = cursor_x m; baseY = cursor_y m
      in
        case serial_flush m of
          None \<Rightarrow> None
        | Some m1 \<Rightarrow>
            (case millis m1 of
               None \<Rightarrow> None
             | Some (prev, m2) \<Rightarrow>
                 (case ctcSerial_wait prev 0 m2 of
                    None \<Rightarrow> None
                  | Some m3 \<Rightarrow>
                      (case serial_flush (draw_indicator 0 m3) of
                         None \<Rightarrow> None
                       | Some m4 \<Rightarrow> Some (setTextColor 1 (setCursor baseX baseY m4))))))"

text \<open>
  Lines 517--527, the waiting loop of \<^verbatim>\<open>ctcTimedSerial\<close>. \<^verbatim>\<open>Serial.available()\<close> is called
  first; the timer is compared on the value \<open>now\<close> read in the round before. \<open>timerMS\<close> is
  the \<^verbatim>\<open>long\<close> parameter.
\<close>

function ctcTimedSerial_wait ::
  "int \<Rightarrow> uint32_t \<Rightarrow> uint32_t \<Rightarrow> uint32_t \<Rightarrow> uint8_t \<Rightarrow> machine \<Rightarrow> machine option"
where
  "ctcTimedSerial_wait timerMS basetime prev now color m =
     (case Serial_available m of
        None \<Rightarrow> None
      | Some (a, m1) \<Rightarrow>
          if \<not> a \<and> sint (now - basetime) < timerMS then
            (case millis m1 of
               None \<Rightarrow> None
             | Some (now', m2) \<Rightarrow>
                 if sint (now' - prev) > 500 then
                   ctcTimedSerial_wait timerMS basetime now' now' (toggle color)
                     (draw_indicator (toggle color) m2)
                 else ctcTimedSerial_wait timerMS basetime prev now' color m2)
          else Some m1)"
  by pat_completeness auto
termination
  by (relation "measure (\<lambda>(timerMS, basetime, prev, now, color, m). length (serial_in m))")
     (auto simp: Serial_available_def millis_def draw_indicator_def display_frame_def
        write_str_def setTextColor_def setCursor_def split: list.splits)

declare ctcTimedSerial_wait.simps [simp del]

text \<open>\<^verbatim>\<open>ctcTimedSerial\<close>, lines 506--537.\<close>

definition ctcTimedSerial :: "int \<Rightarrow> machine \<Rightarrow> machine option" where
  "ctcTimedSerial timerMS m =
     (let baseX = cursor_x m; baseY = cursor_y m
      in
        case serial_flush m of
          None \<Rightarrow> None
        | Some m1 \<Rightarrow>
            (case millis m1 of
               None \<Rightarrow> None
             | Some (basetime, m2) \<Rightarrow>
                 (case millis m2 of
                    None \<Rightarrow> None
                  | Some (prev, m3) \<Rightarrow>
                      (case millis m3 of
                         None \<Rightarrow> None
                       | Some (now, m4) \<Rightarrow>
                           (case ctcTimedSerial_wait timerMS basetime prev now 0 m4 of
                              None \<Rightarrow> None
                            | Some m5 \<Rightarrow>
                                (case serial_flush (draw_indicator 0 m5) of
                                   None \<Rightarrow> None
                                 | Some m6 \<Rightarrow>
                                     Some (setTextColor 1 (setCursor baseX baseY m6))))))))"

text \<open>
  The gates on a GPIO pin. \<^verbatim>\<open>ctc\<close>, lines 546--576: \<^verbatim>\<open>while(digitalRead(button)) continue;\<close>
  then the waiting loop on the pin.
\<close>

function pin_release :: "uint8_t \<Rightarrow> machine \<Rightarrow> machine option" where
  "pin_release button m =
     (case digitalRead button m of
        None \<Rightarrow> None
      | Some (v, m1) \<Rightarrow> if v then pin_release button m1 else Some m1)"
  by pat_completeness auto
termination
  by (relation "measure (\<lambda>(button, m). length (pin_in m))")
     (auto simp: digitalRead_def split: list.splits)

declare pin_release.simps [simp del]

function ctc_wait :: "uint8_t \<Rightarrow> uint32_t \<Rightarrow> uint8_t \<Rightarrow> machine \<Rightarrow> machine option" where
  "ctc_wait button prev color m =
     (case digitalRead button m of
        None \<Rightarrow> None
      | Some (v, m1) \<Rightarrow>
          if \<not> v then
            (case millis m1 of
               None \<Rightarrow> None
             | Some (now, m2) \<Rightarrow>
                 if sint (now - prev) > 500 then
                   ctc_wait button now (toggle color) (draw_indicator (toggle color) m2)
                 else ctc_wait button prev color m2)
          else Some m1)"
  by pat_completeness auto
termination
  by (relation "measure (\<lambda>(button, prev, color, m). length (pin_in m))")
     (auto simp: digitalRead_def millis_def draw_indicator_def display_frame_def
        write_str_def setTextColor_def setCursor_def split: list.splits)

declare ctc_wait.simps [simp del]

definition ctc :: "uint8_t \<Rightarrow> machine \<Rightarrow> machine option" where
  "ctc button m =
     (let baseX = cursor_x m; baseY = cursor_y m
      in
        case pin_release button m of
          None \<Rightarrow> None
        | Some m1 \<Rightarrow>
            (case millis m1 of
               None \<Rightarrow> None
             | Some (prev, m2) \<Rightarrow>
                 (case ctc_wait button prev 0 m2 of
                    None \<Rightarrow> None
                  | Some m3 \<Rightarrow>
                      (case serial_flush (draw_indicator 0 m3) of
                         None \<Rightarrow> None
                       | Some m4 \<Rightarrow> Some (setTextColor 1 (setCursor baseX baseY m4))))))"

text \<open>\<^verbatim>\<open>ctcTimed\<close>, lines 578--609, and its waiting loop, lines 589--599.\<close>

function ctcTimed_wait ::
  "uint8_t \<Rightarrow> int \<Rightarrow> uint32_t \<Rightarrow> uint32_t \<Rightarrow> uint32_t \<Rightarrow> uint8_t \<Rightarrow> machine
     \<Rightarrow> machine option"
where
  "ctcTimed_wait button timerMS basetime prev now color m =
     (case Serial_available m of
        None \<Rightarrow> None
      | Some (a, m1) \<Rightarrow>
          if \<not> a \<and> sint (now - basetime) < timerMS then
            (case millis m1 of
               None \<Rightarrow> None
             | Some (now', m2) \<Rightarrow>
                 if sint (now' - prev) > 500 then
                   ctcTimed_wait button timerMS basetime now' now' (toggle color)
                     (draw_indicator (toggle color) m2)
                 else ctcTimed_wait button timerMS basetime prev now' color m2)
          else Some m1)"
  by pat_completeness auto
termination
  by (relation "measure (\<lambda>(button, timerMS, basetime, prev, now, color, m).
                  length (serial_in m))")
     (auto simp: Serial_available_def millis_def draw_indicator_def display_frame_def
        write_str_def setTextColor_def setCursor_def split: list.splits)

declare ctcTimed_wait.simps [simp del]

definition ctcTimed :: "uint8_t \<Rightarrow> int \<Rightarrow> machine \<Rightarrow> machine option" where
  "ctcTimed button timerMS m =
     (let baseX = cursor_x m; baseY = cursor_y m
      in
        case serial_flush m of
          None \<Rightarrow> None
        | Some m1 \<Rightarrow>
            (case millis m1 of
               None \<Rightarrow> None
             | Some (basetime, m2) \<Rightarrow>
                 (case millis m2 of
                    None \<Rightarrow> None
                  | Some (prev, m3) \<Rightarrow>
                      (case millis m3 of
                         None \<Rightarrow> None
                       | Some (now, m4) \<Rightarrow>
                           (case ctcTimed_wait button timerMS basetime prev now 0 m4 of
                              None \<Rightarrow> None
                            | Some m5 \<Rightarrow>
                                (case serial_flush (draw_indicator 0 m5) of
                                   None \<Rightarrow> None
                                 | Some m6 \<Rightarrow>
                                     Some (setTextColor 1 (setCursor baseX baseY m6))))))))"

text \<open>What a log shows on the display: the calls that are not reads of the input.\<close>

fun is_input :: "hw_op \<Rightarrow> bool" where
  "is_input (SerialAvailable a) = True"
| "is_input SerialRead = True"
| "is_input (Millis t) = True"
| "is_input (DigitalRead pin v) = True"
| "is_input _ = False"

definition display_ops :: "hw_op list \<Rightarrow> hw_op list" where
  "display_ops log = filter (\<lambda>e. \<not> is_input e) log"

text \<open>
  The reads of the discarding loop on \<open>n\<close> waiting bytes, and those of a waiting loop that
  finds no byte and reads the clock as \<open>ts\<close>.
\<close>

definition discard_ops :: "nat \<Rightarrow> hw_op list" where
  "discard_ops n = concat (replicate n [SerialAvailable True, SerialRead]) @ [SerialAvailable False]"

definition idle_ops :: "uint32_t list \<Rightarrow> hw_op list" where
  "idle_ops ts = concat (map (\<lambda>t. [SerialAvailable False, Millis t]) ts)"

text \<open>A machine for the examples: the cursor moves six pixels to the right per glyph.\<close>

definition demo_machine :: "nat \<Rightarrow> bool list \<Rightarrow> uint32_t list \<Rightarrow> machine" where
  "demo_machine colour avail clk =
     \<lparr>cursor_x = 12, cursor_y = 16, textcolor = colour,
      gfx_write = (\<lambda>(x, y) s. (x + 6 * int (length s), y)),
      serial_in = avail, clock = clk, pin_in = [], oplog = []\<rparr>"

section \<open>Properties of the scroll engine\<close>

lemma as_int16_id: "- 32768 \<le> k \<Longrightarrow> k \<le> 32767 \<Longrightarrow> as_int16 k = k"
  unfolding as_int16_def
  by (simp add: sint_sbintrunc' signed_take_bit_int_eq_self)

lemma as_int16_sint: "as_int16 (sint (w :: int16_t)) = sint w"
  unfolding as_int16_def by simp

lemma sint_plus64: "sint ((w :: int16_t) + 64) = as_int16 (sint w + 64)"
  unfolding as_int16_def by (simp add: sint_word_ariths sint_sbintrunc')

lemma as_int16_wrap: "32768 \<le> k \<Longrightarrow> k < 98304 \<Longrightarrow> as_int16 k = k - 65536"
proof -
  assume a: "32768 \<le> k" "k < 98304"
  have "as_int16 k = (k + 32768) mod 65536 - 32768"
    unfolding as_int16_def
    by (simp add: sint_sbintrunc' signed_take_bit_eq_take_bit_shift take_bit_eq_mod)
  moreover have "k + 32768 = (k - 32768) + 65536" by simp
  then have "(k + 32768) mod 65536 = (k - 32768) mod 65536"
    by (simp only: mod_add_self2)
  moreover have "(k - 32768) mod 65536 = k - 32768"
    using a by (intro mod_pos_pos_trivial) simp_all
  ultimately show ?thesis by simp
qed

lemma resolve_end_y_spec:
  "scrollstep \<noteq> 0 \<Longrightarrow>
   sint (resolve_end_y scrollstep allowoverflow end_y bmp) =
     as_int16 (spec_endY scrollstep allowoverflow (sint end_y) (height bmp))"
  unfolding resolve_end_y_def spec_endY_def
  by (simp add: as_int16_sint sint_plus64) (simp add: as_int16_def)

text \<open>
  Claim C1, as amended. For every call with a step other than zero, the end offset that
  lines 265--269 leave in \<^verbatim>\<open>end_y\<close> is the value of the case analysis of section 4.1
  (\<open>spec_endY\<close>) as the 16-bit signed variable holds it. It is that value itself
  whenever the value lies between -32768 and 32767.
\<close>

theorem end_y_case_analysis:
  assumes "scrollstep \<noteq> 0"
  shows "sint (resolve_end_y scrollstep allowoverflow end_y bmp) =
           as_int16 (spec_endY scrollstep allowoverflow (sint end_y) (height bmp))
       \<and> (- 32768 \<le> spec_endY scrollstep allowoverflow (sint end_y) (height bmp)
            \<and> spec_endY scrollstep allowoverflow (sint end_y) (height bmp) \<le> 32767
          \<longrightarrow> sint (resolve_end_y scrollstep allowoverflow end_y bmp) =
                spec_endY scrollstep allowoverflow (sint end_y) (height bmp))"
  using assms by (simp add: resolve_end_y_spec as_int16_id)

text \<open>
  Two runs of C1: a downward scroll to the marker 10 ends at row 74, an upward scroll whose
  marker 100 lies beyond a bitmap of 128 rows ends at row 64.
\<close>

theorem end_y_case_analysis_witness:
  "sint (resolve_end_y 2 False 10 \<lparr>bitmap = [], width = 128, height = 128\<rparr>) = 74
   \<and> sint (resolve_end_y (- 1) False 100 \<lparr>bitmap = [], width = 128, height = 128\<rparr>) = 64"
  using end_y_case_analysis [of 2 False 10 "\<lparr>bitmap = [], width = 128, height = 128\<rparr>"]
        end_y_case_analysis [of "- 1" False 100 "\<lparr>bitmap = [], width = 128, height = 128\<rparr>"]
  by (simp add: spec_endY_def)

text \<open>
  C1 as it is worded fails where the sum does not fit the variable: a downward scroll
  with the marker 32767 and overflow allowed should end at row 32831, and \<^verbatim>\<open>end_y += 64\<close>
  leaves -32705.
\<close>

theorem end_y_case_analysis_counterexample:
  "sint (resolve_end_y 1 True 32767 \<lparr>bitmap = [], width = 128, height = 100\<rparr>) = - 32705
   \<and> spec_endY 1 True (sint (32767 :: int16_t)) 100 = 32831"
  by (simp add: resolve_end_y_def spec_endY_def)

text \<open>
  Claim C2, as amended. For a bitmap whose height is between 0 and 32767, the end offset
  lies between 0 and the height of the bitmap
  \<^item> for a downward scroll, when overflow is not allowed, or the marker is at most 0, or
    the marker plus 64 is at most the height;
  \<^item> for an upward scroll with overflow not allowed, when the bitmap is at least as high as
    the 64 rows of the viewport, or the marker plus 64 is at most the height;
  \<^item> for an upward scroll with overflow allowed, when the marker is between 0 and the
    height.
\<close>

theorem end_y_within_bitmap:
  assumes "0 \<le> height bmp" and "height bmp \<le> 32767"
    and "0 < scrollstep
           \<and> (\<not> allowoverflow \<or> sint end_y \<le> 0 \<or> sint end_y + 64 \<le> height bmp)
         \<or> scrollstep < 0 \<and> \<not> allowoverflow
           \<and> (64 \<le> height bmp \<or> sint end_y + 64 \<le> height bmp)
         \<or> scrollstep < 0 \<and> allowoverflow \<and> 0 \<le> sint end_y \<and> sint end_y \<le> height bmp"
  shows "0 \<le> sint (resolve_end_y scrollstep allowoverflow end_y bmp)
       \<and> sint (resolve_end_y scrollstep allowoverflow end_y bmp) \<le> height bmp"
proof -
  let ?s = "spec_endY scrollstep allowoverflow (sint end_y) (height bmp)"
  have b: "0 \<le> ?s \<and> ?s \<le> height bmp"
    using assms unfolding spec_endY_def by auto
  then have "as_int16 ?s = ?s"
    using assms(2) by (intro as_int16_id) auto
  moreover have "scrollstep \<noteq> 0" using assms(3) by auto
  ultimately show ?thesis
    using b resolve_end_y_spec [of scrollstep allowoverflow end_y bmp] by simp
qed

text \<open>
  Three runs of C2, with overflow allowed: a downward scroll to a marker inside the
  bitmap, an upward scroll to a marker inside the bitmap, and an upward scroll, overflow
  not allowed, to a marker beyond the bitmap.
\<close>

theorem end_y_within_bitmap_witness:
  "sint (resolve_end_y 2 True 30 \<lparr>bitmap = [], width = 128, height = 128\<rparr>) = 94
   \<and> sint (resolve_end_y (- 2) True 40 \<lparr>bitmap = [], width = 128, height = 128\<rparr>) = 40
   \<and> 0 \<le> sint (resolve_end_y (- 2) False 200 \<lparr>bitmap = [], width = 128, height = 128\<rparr>)
   \<and> sint (resolve_end_y (- 2) False 200 \<lparr>bitmap = [], width = 128, height = 128\<rparr>) \<le> 128"
  using end_y_within_bitmap [of "\<lparr>bitmap = [], width = 128, height = 128\<rparr>" 2 True 30]
        end_y_within_bitmap [of "\<lparr>bitmap = [], width = 128, height = 128\<rparr>" "- 2" True 40]
        end_y_within_bitmap [of "\<lparr>bitmap = [], width = 128, height = 128\<rparr>" "- 2" False 200]
  by (simp add: resolve_end_y_def)

text \<open>
  C2 as it is worded fails in each case that the amended claim leaves out. With overflow
  allowed, a downward scroll to the marker 50 of a bitmap of 100 rows ends at row 114, and
  an upward scroll to the marker -5 ends at row -5. A height of 40000 does not fit the
  variable: the downward scroll to the natural end leaves -25536. An upward scroll of a
  bitmap of 32 rows, lower than the viewport, ends at row -32 (line 268). A negative
  height, -10, is the end of the downward scroll as it is.
\<close>

theorem end_y_within_bitmap_counterexample:
  "\<not> (0 \<le> sint (resolve_end_y 1 True 50 \<lparr>bitmap = [], width = 128, height = 100\<rparr>)
       \<and> sint (resolve_end_y 1 True 50 \<lparr>bitmap = [], width = 128, height = 100\<rparr>) \<le> 100)
   \<and> \<not> (0 \<le> sint (resolve_end_y (- 1) True (- 5) \<lparr>bitmap = [], width = 128, height = 100\<rparr>)
       \<and> sint (resolve_end_y (- 1) True (- 5) \<lparr>bitmap = [], width = 128, height = 100\<rparr>)
           \<le> 100)
   \<and> \<not> (0 \<le> sint (resolve_end_y 1 False 0 \<lparr>bitmap = [], width = 128, height = 40000\<rparr>)
       \<and> sint (resolve_end_y 1 False 0 \<lparr>bitmap = [], width = 128, height = 40000\<rparr>)
           \<le> 40000)
   \<and> \<not> (0 \<le> sint (resolve_end_y (- 1) False 0 \<lparr>bitmap = [], width = 128, height = 32\<rparr>)
       \<and> sint (resolve_end_y (- 1) False 0 \<lparr>bitmap = [], width = 128, height = 32\<rparr>) \<le> 32)
   \<and> \<not> (0 \<le> sint (resolve_end_y 1 False 0 \<lparr>bitmap = [], width = 128, height = - 10\<rparr>)
       \<and> sint (resolve_end_y 1 False 0 \<lparr>bitmap = [], width = 128, height = - 10\<rparr>)
           \<le> - 10)"
  by (simp add: resolve_end_y_def)

text \<open>
  The amended C2 leaves out no call that keeps the bound: for a height between 0 and
  32767 and a step other than zero, every call outside its three cases ends below 0 or
  above the height.
\<close>

lemma end_y_outside_bitmap:
  assumes "0 \<le> height bmp" and "height bmp \<le> 32767" and "scrollstep \<noteq> 0"
    and "\<not> (0 < scrollstep
           \<and> (\<not> allowoverflow \<or> sint end_y \<le> 0 \<or> sint end_y + 64 \<le> height bmp)
         \<or> scrollstep < 0 \<and> \<not> allowoverflow
           \<and> (64 \<le> height bmp \<or> sint end_y + 64 \<le> height bmp)
         \<or> scrollstep < 0 \<and> allowoverflow \<and> 0 \<le> sint end_y \<and> sint end_y \<le> height bmp)"
  shows "\<not> (0 \<le> sint (resolve_end_y scrollstep allowoverflow end_y bmp)
       \<and> sint (resolve_end_y scrollstep allowoverflow end_y bmp) \<le> height bmp)"
proof (cases "0 < scrollstep")
  case True
  with assms(4) have a: allowoverflow "0 < sint end_y" "height bmp < sint end_y + 64"
    by auto
  then have r: "resolve_end_y scrollstep allowoverflow end_y bmp = end_y + 64"
    using True by (simp add: resolve_end_y_def)
  show ?thesis
  proof (cases "sint end_y + 64 \<le> 32767")
    case True
    then have "sint (end_y + 64) = sint end_y + 64"
      using a(2) by (simp add: sint_plus64 as_int16_id)
    with a(3) show ?thesis unfolding r by simp
  next
    case False
    moreover have le: "sint end_y \<le> 32767" using sint_lt [of end_y] by simp
    ultimately have "as_int16 (sint end_y + 64) = sint end_y + 64 - 65536"
      by (intro as_int16_wrap) simp_all
    then have "sint (end_y + 64) < 0"
      using le unfolding sint_plus64 by simp
    then show ?thesis unfolding r by simp
  qed
next
  case False
  with assms(3) have neg: "scrollstep < 0" by simp
  have h: "- 32768 \<le> height bmp - 64" "height bmp - 64 \<le> 32767" using assms(1,2) by simp_all
  show ?thesis
  proof (cases allowoverflow)
    case True
    with assms(4) neg have "\<not> (0 \<le> sint end_y \<and> sint end_y \<le> height bmp)" by auto
    moreover have "resolve_end_y scrollstep allowoverflow end_y bmp = end_y"
      using neg True by (simp add: resolve_end_y_def)
    ultimately show ?thesis by simp
  next
    case False
    with assms(4) neg have a: "height bmp < 64" "height bmp < sint end_y + 64" by auto
    then have "resolve_end_y scrollstep allowoverflow end_y bmp = word_of_int (height bmp - 64)"
      using neg False by (simp add: resolve_end_y_def)
    moreover have "sint (word_of_int (height bmp - 64) :: int16_t) = height bmp - 64"
      using as_int16_id [OF h] by (simp add: as_int16_def)
    ultimately show ?thesis using a(1) by simp
  qed
qed

text \<open>
  Both loops return when the step has the sign of their branch, and what they add to
  the log does not depend on the log they start from.
\<close>

lemma scroll_down_loop_returns:
  assumes "0 < scrollstep"
  shows "\<exists>steps. \<forall>log. scroll_down_loop sd scrollstep snap ox oy e bmp hgt log = Some (log @ steps)"
proof (induction "nat (sint e - (hgt + 64 - sint oy))" arbitrary: hgt rule: less_induct)
  case less
  show ?case
  proof (cases "hgt + 64 - sint oy < sint e")
    case False
    then have "\<forall>log. scroll_down_loop sd scrollstep snap ox oy e bmp hgt log = Some (log @ [])"
      by (subst scroll_down_loop.simps) simp
    then show ?thesis by blast
  next
    case True
    show ?thesis
    proof (cases "hgt + 64 - sint oy + scrollstep < sint e")
      case step: True
      from less [of "hgt + scrollstep"] assms True obtain steps where
        s: "\<And>log. scroll_down_loop sd scrollstep snap ox oy e bmp (hgt + scrollstep) log = Some (log @ steps)"
        by auto
      have "\<forall>log. scroll_down_loop sd scrollstep snap ox oy e bmp hgt log =
          Some (log @ ([DrawBitmap ox (word_of_int (- hgt + sint oy)) bmp OFF,
                        DrawBitmap ox (word_of_int (- (hgt + scrollstep) + sint oy)) bmp ON,
                        Display, Delay sd] @ steps))"
        using True step by (subst scroll_down_loop.simps) (simp add: s)
      then show ?thesis by blast
    next
      case nostep: False
      show ?thesis
      proof (cases snap)
        case True
        have "\<forall>log. scroll_down_loop sd scrollstep snap ox oy e bmp hgt log =
          Some (log @ [DrawBitmap ox (word_of_int (- hgt + sint oy)) bmp OFF])"
          using \<open>hgt + 64 - sint oy < sint e\<close> nostep True
          by (subst scroll_down_loop.simps) simp
        then show ?thesis by blast
      next
        case False
        from less [of "hgt + 1"] \<open>hgt + 64 - sint oy < sint e\<close> obtain steps where
          s: "\<And>log. scroll_down_loop sd scrollstep snap ox oy e bmp (hgt + 1) log = Some (log @ steps)"
          by auto
        have "\<forall>log. scroll_down_loop sd scrollstep snap ox oy e bmp hgt log =
          Some (log @ ([DrawBitmap ox (word_of_int (- hgt + sint oy)) bmp OFF,
                        DrawBitmap ox (word_of_int (- (hgt + 1) + sint oy)) bmp ON,
                        Display, Delay sd] @ steps))"
          using \<open>hgt + 64 - sint oy < sint e\<close> nostep False s
          by (subst scroll_down_loop.simps) simp
        then show ?thesis by blast
      qed
    qed
  qed
qed

lemma scroll_up_loop_returns:
  assumes "scrollstep < 0"
  shows "\<exists>steps. \<forall>log. scroll_up_loop sd scrollstep snap ox e bmp hgt log = Some (log @ steps)"
proof (induction "nat (- sint e - hgt)" arbitrary: hgt rule: less_induct)
  case less
  show ?case
  proof (cases "hgt < - sint e")
    case False
    then have "\<forall>log. scroll_up_loop sd scrollstep snap ox e bmp hgt log = Some (log @ [])"
      by (subst scroll_up_loop.simps) simp
    then show ?thesis by blast
  next
    case True
    show ?thesis
    proof (cases "hgt - scrollstep \<le> - sint e")
      case step: True
      from less [of "hgt - scrollstep"] assms True obtain steps where
        s: "\<And>log. scroll_up_loop sd scrollstep snap ox e bmp (hgt - scrollstep) log = Some (log @ steps)"
        by auto
      have "\<forall>log. scroll_up_loop sd scrollstep snap ox e bmp hgt log =
          Some (log @ ([DrawBitmap ox (word_of_int hgt) bmp OFF,
                        DrawBitmap ox (word_of_int (hgt - scrollstep)) bmp ON,
                        Display, Delay sd] @ steps))"
        using True step by (subst scroll_up_loop.simps) (simp add: s)
      then show ?thesis by blast
    next
      case nostep: False
      show ?thesis
      proof (cases snap)
        case True
        have "\<forall>log. scroll_up_loop sd scrollstep snap ox e bmp hgt log =
          Some (log @ [DrawBitmap ox (word_of_int hgt) bmp OFF])"
          using \<open>hgt < - sint e\<close> nostep True
          by (subst scroll_up_loop.simps) simp
        then show ?thesis by blast
      next
        case False
        from less [of "hgt + 1"] \<open>hgt < - sint e\<close> obtain steps where
          s: "\<And>log. scroll_up_loop sd scrollstep snap ox e bmp (hgt + 1) log = Some (log @ steps)"
          by auto
        have "\<forall>log. scroll_up_loop sd scrollstep snap ox e bmp hgt log =
          Some (log @ ([DrawBitmap ox (word_of_int hgt) bmp OFF,
                        DrawBitmap ox (word_of_int (hgt + 1)) bmp ON,
                        Display, Delay sd] @ steps))"
          using \<open>hgt < - sint e\<close> nostep False s
          by (subst scroll_up_loop.simps) simp
        then show ?thesis by blast
      qed
    qed
  qed
qed

text \<open>
  Claim C6. For every call with a step other than zero the stepping loop returns, and
  the function then makes exactly three more calls: it draws the bitmap, in colour
  \<^verbatim>\<open>ON\<close>, at the resolved end offset (row \<^verbatim>\<open>-(end_y - 64)\<close> for a downward scroll, row
  \<^verbatim>\<open>-end_y\<close> for an upward one), presents the frame, and waits for \<^verbatim>\<open>enddelay\<close> (500 when
  negative). When the loop condition is false at the start (no step is needed), the loop
  adds nothing and these three calls follow the first frame directly.
\<close>

theorem scroll_final_frame:
  assumes "scrollstep \<noteq> 0"
  shows "\<exists>steps.
     (if 0 < scrollstep
      then scroll_down_loop (if scrolldelay < 0 then 5 else scrolldelay) scrollstep snaptoend
             offset_x offset_y (resolve_end_y scrollstep allowoverflow end_y bmp) bmp 0 []
      else scroll_up_loop (if scrolldelay < 0 then 5 else scrolldelay) scrollstep snaptoend
             offset_x (resolve_end_y scrollstep allowoverflow end_y bmp) bmp (sint offset_y) [])
       = Some steps
     \<and> drawVerticalScrollingBitmap initialdelay enddelay scrolldelay scrollstep snaptoend
         allowoverflow offset_x offset_y end_y bmp =
       Some ([DrawBitmap offset_x offset_y bmp ON, Display,
              Delay (if initialdelay < 0 then 500 else initialdelay)]
             @ steps
             @ [DrawBitmap offset_x
                  (if 0 < scrollstep
                   then word_of_int
                          (- (sint (resolve_end_y scrollstep allowoverflow end_y bmp) - 64))
                   else word_of_int (- sint (resolve_end_y scrollstep allowoverflow end_y bmp)))
                  bmp ON,
                Display, Delay (if enddelay < 0 then 500 else enddelay)])
     \<and> ((if 0 < scrollstep
          then sint (resolve_end_y scrollstep allowoverflow end_y bmp) \<le> 64 - sint offset_y
          else - sint (resolve_end_y scrollstep allowoverflow end_y bmp) \<le> sint offset_y)
         \<longrightarrow> steps = [])"
proof (cases "0 < scrollstep")
  case True
  let ?e = "resolve_end_y scrollstep allowoverflow end_y bmp"
  let ?sd = "if scrolldelay < 0 then 5 else scrolldelay"
  from scroll_down_loop_returns [OF True, of ?sd snaptoend offset_x offset_y ?e bmp 0]
  obtain steps where
    s: "\<And>log. scroll_down_loop ?sd scrollstep snaptoend offset_x offset_y ?e bmp 0 log
          = Some (log @ steps)"
    by blast
  have z: "sint ?e \<le> 64 - sint offset_y \<longrightarrow> steps = []"
  proof
    assume "sint ?e \<le> 64 - sint offset_y"
    then have "scroll_down_loop ?sd scrollstep snaptoend offset_x offset_y ?e bmp 0 [] = Some []"
      by (subst scroll_down_loop.simps) simp
    with s [of "[]"] show "steps = []" by simp
  qed
  have "drawVerticalScrollingBitmap initialdelay enddelay scrolldelay scrollstep snaptoend
         allowoverflow offset_x offset_y end_y bmp =
       Some ([DrawBitmap offset_x offset_y bmp ON, Display,
              Delay (if initialdelay < 0 then 500 else initialdelay)]
             @ steps
             @ [DrawBitmap offset_x (word_of_int (- (sint ?e - 64))) bmp ON, Display,
                Delay (if enddelay < 0 then 500 else enddelay)])"
    using True unfolding drawVerticalScrollingBitmap_def Let_def by (simp add: s)
  with s [of "[]"] z True show ?thesis by auto
next
  case False
  with assms have neg: "scrollstep < 0" by simp
  let ?e = "resolve_end_y scrollstep allowoverflow end_y bmp"
  let ?sd = "if scrolldelay < 0 then 5 else scrolldelay"
  from scroll_up_loop_returns [OF neg, of ?sd snaptoend offset_x ?e bmp "sint offset_y"]
  obtain steps where
    s: "\<And>log. scroll_up_loop ?sd scrollstep snaptoend offset_x ?e bmp (sint offset_y) log
          = Some (log @ steps)"
    by blast
  have z: "- sint ?e \<le> sint offset_y \<longrightarrow> steps = []"
  proof
    assume "- sint ?e \<le> sint offset_y"
    then have "scroll_up_loop ?sd scrollstep snaptoend offset_x ?e bmp (sint offset_y) [] = Some []"
      by (subst scroll_up_loop.simps) simp
    with s [of "[]"] show "steps = []" by simp
  qed
  have "drawVerticalScrollingBitmap initialdelay enddelay scrolldelay scrollstep snaptoend
         allowoverflow offset_x offset_y end_y bmp =
       Some ([DrawBitmap offset_x offset_y bmp ON, Display,
              Delay (if initialdelay < 0 then 500 else initialdelay)]
             @ steps
             @ [DrawBitmap offset_x (word_of_int (- sint ?e)) bmp ON, Display,
                Delay (if enddelay < 0 then 500 else enddelay)])"
    using False neg unfolding drawVerticalScrollingBitmap_def Let_def by (simp add: s)
  with s [of "[]"] z False show ?thesis by auto
qed

text \<open>The loops of the two runs below, evaluated.\<close>

lemma scroll_loops_example:
  "scroll_up_loop 30 (- 2) False 0 0 \<lparr>bitmap = [], width = 128, height = 128\<rparr> (- 4) [] =
     Some [DrawBitmap 0 (- 4) \<lparr>bitmap = [], width = 128, height = 128\<rparr> OFF,
           DrawBitmap 0 (- 2) \<lparr>bitmap = [], width = 128, height = 128\<rparr> ON, Display, Delay 30,
           DrawBitmap 0 (- 2) \<lparr>bitmap = [], width = 128, height = 128\<rparr> OFF,
           DrawBitmap 0 0 \<lparr>bitmap = [], width = 128, height = 128\<rparr> ON, Display, Delay 30]"
  "scroll_down_loop 30 3 False 0 0 70 \<lparr>bitmap = [], width = 128, height = 128\<rparr> 0 [] =
     Some [DrawBitmap 0 0 \<lparr>bitmap = [], width = 128, height = 128\<rparr> OFF,
           DrawBitmap 0 (- 3) \<lparr>bitmap = [], width = 128, height = 128\<rparr> ON, Display, Delay 30,
           DrawBitmap 0 (- 3) \<lparr>bitmap = [], width = 128, height = 128\<rparr> OFF,
           DrawBitmap 0 (- 4) \<lparr>bitmap = [], width = 128, height = 128\<rparr> ON, Display, Delay 30,
           DrawBitmap 0 (- 4) \<lparr>bitmap = [], width = 128, height = 128\<rparr> OFF,
           DrawBitmap 0 (- 5) \<lparr>bitmap = [], width = 128, height = 128\<rparr> ON, Display, Delay 30,
           DrawBitmap 0 (- 5) \<lparr>bitmap = [], width = 128, height = 128\<rparr> OFF,
           DrawBitmap 0 (- 6) \<lparr>bitmap = [], width = 128, height = 128\<rparr> ON, Display, Delay 30]"
  by code_simp+

text \<open>
  Three runs of C6. A bitmap of 64 rows scrolled down by one needs no step: the first
  frame and the final frame are all that is drawn. A bitmap of 128 rows scrolled up by
  two from row -4 to the marker 0 makes two steps and draws the final frame at row 0,
  after a delay that was given negative. The same bitmap scrolled down by three to the
  marker 6 ends at row 70: one step of three, three steps of one, and the final frame at
  row -6.
\<close>

theorem scroll_final_frame_witness:
  "drawVerticalScrollingBitmap 10 20 30 1 False False 0 0 0
       \<lparr>bitmap = [], width = 128, height = 64\<rparr>
     = Some [DrawBitmap 0 0 \<lparr>bitmap = [], width = 128, height = 64\<rparr> ON, Display, Delay 10,
             DrawBitmap 0 0 \<lparr>bitmap = [], width = 128, height = 64\<rparr> ON, Display, Delay 20]
   \<and> drawVerticalScrollingBitmap 10 (- 1) 30 (- 2) False False 0 (- 4) 0
       \<lparr>bitmap = [], width = 128, height = 128\<rparr>
     = Some [DrawBitmap 0 (- 4) \<lparr>bitmap = [], width = 128, height = 128\<rparr> ON, Display, Delay 10,
             DrawBitmap 0 (- 4) \<lparr>bitmap = [], width = 128, height = 128\<rparr> OFF,
             DrawBitmap 0 (- 2) \<lparr>bitmap = [], width = 128, height = 128\<rparr> ON, Display, Delay 30,
             DrawBitmap 0 (- 2) \<lparr>bitmap = [], width = 128, height = 128\<rparr> OFF,
             DrawBitmap 0 0 \<lparr>bitmap = [], width = 128, height = 128\<rparr> ON, Display, Delay 30,
             DrawBitmap 0 0 \<lparr>bitmap = [], width = 128, height = 128\<rparr> ON, Display, Delay 500]
   \<and> drawVerticalScrollingBitmap 10 20 30 3 False False 0 0 6
       \<lparr>bitmap = [], width = 128, height = 128\<rparr>
     = Some [DrawBitmap 0 0 \<lparr>bitmap = [], width = 128, height = 128\<rparr> ON, Display, Delay 10,
             DrawBitmap 0 0 \<lparr>bitmap = [], width = 128, height = 128\<rparr> OFF,
             DrawBitmap 0 (- 3) \<lparr>bitmap = [], width = 128, height = 128\<rparr> ON, Display, Delay 30,
             DrawBitmap 0 (- 3) \<lparr>bitmap = [], width = 128, height = 128\<rparr> OFF,
             DrawBitmap 0 (- 4) \<lparr>bitmap = [], width = 128, height = 128\<rparr> ON, Display, Delay 30,
             DrawBitmap 0 (- 4) \<lparr>bitmap = [], width = 128, height = 128\<rparr> OFF,
             DrawBitmap 0 (- 5) \<lparr>bitmap = [], width = 128, height = 128\<rparr> ON, Display, Delay 30,
             DrawBitmap 0 (- 5) \<lparr>bitmap = [], width = 128, height = 128\<rparr> OFF,
             DrawBitmap 0 (- 6) \<lparr>bitmap = [], width = 128, height = 128\<rparr> ON, Display, Delay 30,
             DrawBitmap 0 (- 6) \<lparr>bitmap = [], width = 128, height = 128\<rparr> ON, Display, Delay 20]"
proof -
  let ?b = "\<lparr>bitmap = [], width = 128, height = 128\<rparr>"
  have e: "resolve_end_y (- 2) False 0 ?b = 0" "resolve_end_y 3 False 6 ?b = 70"
    by (simp_all add: resolve_end_y_def)
  from scroll_final_frame
    [of 1 30 False 0 0 False 0 "\<lparr>bitmap = [], width = 128, height = 64\<rparr>" 10 20]
  have zero: "drawVerticalScrollingBitmap 10 20 30 1 False False 0 0 0
       \<lparr>bitmap = [], width = 128, height = 64\<rparr>
     = Some [DrawBitmap 0 0 \<lparr>bitmap = [], width = 128, height = 64\<rparr> ON, Display, Delay 10,
             DrawBitmap 0 0 \<lparr>bitmap = [], width = 128, height = 64\<rparr> ON, Display, Delay 20]"
    by (auto simp add: resolve_end_y_def)
  from scroll_final_frame [where scrollstep = "- 2" and scrolldelay = 30
      and snaptoend = False and offset_x = 0 and offset_y = "- 4" and allowoverflow = False
      and end_y = 0 and bmp = ?b and initialdelay = 10 and enddelay = "- 1"]
  have up: "drawVerticalScrollingBitmap 10 (- 1) 30 (- 2) False False 0 (- 4) 0 ?b =
       Some ([DrawBitmap 0 (- 4) ?b ON, Display, Delay 10]
             @ the (scroll_up_loop 30 (- 2) False 0 0 ?b (- 4) [])
             @ [DrawBitmap 0 0 ?b ON, Display, Delay 500])"
    by (auto simp add: e)
  from scroll_final_frame [where scrollstep = 3 and scrolldelay = 30
      and snaptoend = False and offset_x = 0 and offset_y = 0 and allowoverflow = False
      and end_y = 6 and bmp = ?b and initialdelay = 10 and enddelay = 20]
  have down: "drawVerticalScrollingBitmap 10 20 30 3 False False 0 0 6 ?b =
       Some ([DrawBitmap 0 0 ?b ON, Display, Delay 10]
             @ the (scroll_down_loop 30 3 False 0 0 70 ?b 0 [])
             @ [DrawBitmap 0 (- 6) ?b ON, Display, Delay 20])"
    by (auto simp add: e)
  show ?thesis
    unfolding zero up down scroll_loops_example by simp
qed

text \<open>
  Claim C7, the scenario of section 8 run on the code: a bitmap of 128 rows, a step of 2,
  the marker 0, overflow not allowed, both offsets 0. The end offset is 128. The loop
  takes a whole step only while \<^verbatim>\<open>height + 64 - offset_y + scrollstep < end_y\<close> (line 280,
  a strict comparison), so it makes 31 steps of two rows, to row 62. Without
  \<^verbatim>\<open>snaptoend\<close> two steps of one row follow and the final frame repeats row 64; with
  \<^verbatim>\<open>snaptoend\<close> the loop is left at row 62 and the final frame makes the last move.
\<close>

theorem scenario_128_steps:
  "sint (resolve_end_y 2 False 0 \<lparr>bitmap = [], width = 128, height = 128\<rparr>) = 128
   \<and> map_option (step_sizes \<circ> frames)
       (drawVerticalScrollingBitmap 500 500 5 2 False False 0 0 0
          \<lparr>bitmap = [], width = 128, height = 128\<rparr>) = Some (replicate 31 2 @ [1, 1, 0])
   \<and> map_option (step_sizes \<circ> frames)
       (drawVerticalScrollingBitmap 500 500 5 2 True False 0 0 0
          \<lparr>bitmap = [], width = 128, height = 128\<rparr>) = Some (replicate 31 2 @ [2])"
  by code_simp

section \<open>Properties of the dialog text\<close>

text \<open>The loops of \<^verbatim>\<open>drawDialogText\<close> in closed form; every read of the dialog is inside it.\<close>

lemma char_at_in_range: "k < length s \<Longrightarrow> char_at s (int k) = Some (s ! k)"
  by (simp add: char_at_def)

lemma dialog_tick_ops:
  "x \<le> ts \<Longrightarrow> i + ts \<le> length dialog \<Longrightarrow>
   dialog_tick dialog (int ts) cd (int i) (int x) log =
     Some (log @ concat (map (tick_char CallCtcSerial cd) (take (ts - x) (drop (i + x) dialog))))"
proof (induction "ts - x" arbitrary: x log)
  case 0
  then show ?case by (subst dialog_tick.simps) simp
next
  case (Suc n)
  then have lt: "x < ts" and n: "n = ts - Suc x" by auto
  with Suc.prems have inr: "i + x < length dialog" by simp
  have ix: "int i + int x = int (i + x)" and x1: "int x + 1 = int (Suc x)" by simp_all
  have d: "drop (i + x) dialog = dialog ! (i + x) # drop (i + Suc x) dialog"
    using inr by (simp add: Cons_nth_drop_Suc)
  have t: "take (ts - x) (drop (i + x) dialog)
           = dialog ! (i + x) # take (ts - Suc x) (drop (i + Suc x) dialog)"
    using lt by (subst d) (simp add: take_Suc_Cons [symmetric] Suc_diff_Suc del: take_Suc_Cons)
  from Suc.hyps(1) [OF n] lt Suc.prems
  have ih: "\<And>log'. dialog_tick dialog (int ts) cd (int i) (int (Suc x)) log' =
            Some (log' @ concat (map (tick_char CallCtcSerial cd)
                            (take (ts - Suc x) (drop (i + Suc x) dialog))))"
    by simp
  show ?case
    using lt
    by (subst dialog_tick.simps)
       (simp add: ix x1 char_at_in_range [OF inr] t tick_char_def ih del: of_nat_add of_nat_Suc)
qed

lemma dialog_tail_ops:
  "i \<le> length dialog \<Longrightarrow>
   dialog_tail dialog (int (length dialog)) cd (int i) log =
     Some (log @ concat (map (tail_char CallCtcSerial cd) (drop i dialog)))"
proof (induction "length dialog - i" arbitrary: i log)
  case 0
  then show ?case by (subst dialog_tail.simps) simp
next
  case (Suc n)
  then have lt: "i < length dialog" and n: "n = length dialog - Suc i" by auto
  have i1: "int i + 1 = int (Suc i)" by simp
  have d: "drop i dialog = dialog ! i # drop (Suc i) dialog"
    using lt by (simp add: Cons_nth_drop_Suc)
  from Suc.hyps(1) [OF n] lt
  have ih: "\<And>log'. dialog_tail dialog (int (length dialog)) cd (int (Suc i)) log' =
            Some (log' @ concat (map (tail_char CallCtcSerial cd) (drop (Suc i) dialog)))"
    by simp
  show ?case
    using lt
    by (subst dialog_tail.simps)
       (simp add: i1 char_at_in_range [OF lt] d tail_char_def ih del: of_nat_add of_nat_Suc)
qed

lemma whole_ticks_more: "0 < ts \<Longrightarrow> j < whole_ticks ts sz \<Longrightarrow> j * ts + ts < sz"
proof -
  assume ts: "0 < ts" and j: "j < whole_ticks ts sz"
  then have "Suc j \<le> (sz - 1) div ts" by (simp add: whole_ticks_def)
  then have "Suc j * ts \<le> sz - 1" using ts by (simp add: less_eq_div_iff_mult_less_eq)
  moreover have "0 < sz" using j by (cases sz) (simp_all add: whole_ticks_def)
  ultimately show ?thesis by simp
qed

lemma whole_ticks_done: "0 < ts \<Longrightarrow> \<not> whole_ticks ts sz * ts + ts < sz"
proof
  assume ts: "0 < ts" and l: "whole_ticks ts sz * ts + ts < sz"
  then have "Suc ((sz - 1) div ts) * ts \<le> sz - 1" by (simp add: whole_ticks_def)
  then have "Suc ((sz - 1) div ts) \<le> (sz - 1) div ts"
    using ts by (simp add: less_eq_div_iff_mult_less_eq)
  then show False by simp
qed

lemma dialog_loop1_ops:
  assumes ts: "0 < ts"
  shows "j \<le> whole_ticks ts (length dialog) \<Longrightarrow>
   dialog_loop1 dialog (int (length dialog)) (int ts) cd (int (j * ts)) log =
     Some (int (whole_ticks ts (length dialog) * ts),
           log @ concat (map (whole_tick CallCtcSerial cd)
                   (map (\<lambda>j. take ts (drop (j * ts) dialog))
                      [j..<whole_ticks ts (length dialog)])))"
proof (induction "whole_ticks ts (length dialog) - j" arbitrary: j log)
  case 0
  then have j: "j = whole_ticks ts (length dialog)" by simp
  have "\<not> int (j * ts) + int ts < int (length dialog)"
    using whole_ticks_done [OF ts, of "length dialog"] unfolding j by linarith
  then show ?case
    by (subst dialog_loop1.simps) (simp add: j)
next
  case (Suc n)
  then have lt: "j < whole_ticks ts (length dialog)"
    and n: "n = whole_ticks ts (length dialog) - Suc j" by auto
  from whole_ticks_more [OF ts lt] have more: "j * ts + ts < length dialog" .
  then have c: "int (j * ts) + int ts < int (length dialog)" by linarith
  have nx: "int (j * ts) + int ts = int (Suc j * ts)" by simp
  have tick: "dialog_tick dialog (int ts) cd (int (j * ts)) 0 log =
      Some (log @ concat (map (tick_char CallCtcSerial cd) (take ts (drop (j * ts) dialog))))"
    using dialog_tick_ops [of 0 ts "j * ts" dialog cd log] more by simp
  from Suc.hyps(1) [OF n] lt
  have ih: "\<And>log. dialog_loop1 dialog (int (length dialog)) (int ts) cd (int (Suc j * ts)) log =
     Some (int (whole_ticks ts (length dialog) * ts),
           log @ concat (map (whole_tick CallCtcSerial cd)
                   (map (\<lambda>j. take ts (drop (j * ts) dialog))
                      [Suc j..<whole_ticks ts (length dialog)])))"
    by simp
  show ?case
    using c lt
    by (subst dialog_loop1.simps)
       (simp add: tick nx ih upt_conv_Cons whole_tick_def del: of_nat_add of_nat_mult mult_Suc)
qed

lemma whole_ticks_le: "whole_ticks ts sz * ts \<le> sz"
proof -
  have "(sz - 1) div ts * ts \<le> sz - 1" by simp
  then show ?thesis unfolding whole_ticks_def by linarith
qed

lemma uint_textspeed:
  "uint (if uint (textspeed :: uint8_t) \<le> 0 then 1 else textspeed)
     = int (unat (if textspeed = 0 then 1 else textspeed))"
  by (simp add: uint_0_iff)

lemma unat_textspeed_pos: "0 < unat (if (textspeed :: uint8_t) = 0 then 1 else textspeed)"
  by (simp add: unat_gt_0)

lemma drawDialogText_onebyone:
  assumes "onebyone \<noteq> 0"
  shows "drawDialogText textspeed chardelay headerdelay onebyone headertext dialog =
     Some ([SetCursor 0 0, WriteStr headertext, Display,
            Delay (if headerdelay < 0 then 200 else headerdelay), SetCursor 0 16]
           @ reveal_ops CallCtcSerial (unat (if textspeed = 0 then 1 else textspeed))
               (if chardelay < 0 then 10 else chardelay) dialog
           @ [CallCtcSerial])"
proof -
  define ts where "ts = unat (if textspeed = 0 then 1 else textspeed)"
  define cd where "cd = (if chardelay < 0 then 10 else chardelay)"
  define log0 where "log0 = [SetCursor 0 0, WriteStr headertext, Display,
            Delay (if headerdelay < 0 then 200 else headerdelay), SetCursor 0 16]"
  define n where "n = whole_ticks ts (length dialog)"
  have pos: "0 < ts" unfolding ts_def by (rule unat_textspeed_pos)
  have l1: "dialog_loop1 dialog (int (length dialog)) (int ts) cd 0 log0 =
      Some (int (n * ts), log0 @ concat (map (whole_tick CallCtcSerial cd) (ticks ts n dialog)))"
    using dialog_loop1_ops [OF pos, of 0 dialog cd log0] by (simp add: n_def ticks_def)
  have l2: "\<And>log. dialog_tail dialog (int (length dialog)) cd (int (n * ts)) log =
      Some (log @ concat (map (tail_char CallCtcSerial cd) (drop (n * ts) dialog)))"
    unfolding n_def by (rule dialog_tail_ops) (rule whole_ticks_le)
  have "drawDialogText textspeed chardelay headerdelay onebyone headertext dialog =
     (case dialog_loop1 dialog (int (length dialog)) (int ts) cd 0 log0 of
        None \<Rightarrow> None
      | Some (i, log1) \<Rightarrow>
          (case dialog_tail dialog (int (length dialog)) cd i log1 of
             None \<Rightarrow> None
           | Some log2 \<Rightarrow> Some (log2 @ [CallCtcSerial])))"
    using assms unfolding drawDialogText_def Let_def uint_textspeed ts_def cd_def log0_def
    by simp
  also have "\<dots> = Some (log0 @ reveal_ops CallCtcSerial ts cd dialog @ [CallCtcSerial])"
    unfolding l1 by (simp add: l2 reveal_ops_def n_def [symmetric] del: of_nat_mult)
  finally show ?thesis unfolding ts_def cd_def log0_def .
qed

text \<open>The same for the loops of \<^verbatim>\<open>drawTimedDialogText\<close>.\<close>

lemma timed_dialog_tick_ops:
  "x \<le> ts \<Longrightarrow> i + ts \<le> length dialog \<Longrightarrow>
   timed_dialog_tick dialog (int ts) cd timer timedinput (int i) (int x) log =
     Some (log @ concat (map (tick_char (mid_gate timedinput timer) cd)
                           (take (ts - x) (drop (i + x) dialog))))"
proof (induction "ts - x" arbitrary: x log)
  case 0
  then show ?case by (subst timed_dialog_tick.simps) simp
next
  case (Suc n)
  then have lt: "x < ts" and n: "n = ts - Suc x" by auto
  with Suc.prems have inr: "i + x < length dialog" by simp
  have ix: "int i + int x = int (i + x)" and x1: "int x + 1 = int (Suc x)" by simp_all
  have d: "drop (i + x) dialog = dialog ! (i + x) # drop (i + Suc x) dialog"
    using inr by (simp add: Cons_nth_drop_Suc)
  have t: "take (ts - x) (drop (i + x) dialog)
           = dialog ! (i + x) # take (ts - Suc x) (drop (i + Suc x) dialog)"
    using lt by (subst d) (simp add: take_Suc_Cons [symmetric] Suc_diff_Suc del: take_Suc_Cons)
  from Suc.hyps(1) [OF n] lt Suc.prems
  have ih: "\<And>log'. timed_dialog_tick dialog (int ts) cd timer timedinput (int i) (int (Suc x)) log' =
            Some (log' @ concat (map (tick_char (mid_gate timedinput timer) cd)
                            (take (ts - Suc x) (drop (i + Suc x) dialog))))"
    by simp
  show ?case
  proof (cases "timedinput = 0")
    case True
    then show ?thesis
      using lt ih
      by (subst timed_dialog_tick.simps)
         (simp add: ix x1 char_at_in_range [OF inr] t tick_char_def mid_gate_def
               del: of_nat_add of_nat_Suc)
  next
    case False
    then show ?thesis
      using lt ih
      by (subst timed_dialog_tick.simps)
         (simp add: ix x1 char_at_in_range [OF inr] t tick_char_def mid_gate_def
               del: of_nat_add of_nat_Suc)
  qed
qed

lemma timed_dialog_tail_ops:
  "i \<le> length dialog \<Longrightarrow>
   timed_dialog_tail dialog (int (length dialog)) cd timer timedinput (int i) log =
     Some (log @ concat (map (tail_char (mid_gate timedinput timer) cd) (drop i dialog)))"
proof (induction "length dialog - i" arbitrary: i log)
  case 0
  then show ?case by (subst timed_dialog_tail.simps) simp
next
  case (Suc n)
  then have lt: "i < length dialog" and n: "n = length dialog - Suc i" by auto
  have i1: "int i + 1 = int (Suc i)" by simp
  have d: "drop i dialog = dialog ! i # drop (Suc i) dialog"
    using lt by (simp add: Cons_nth_drop_Suc)
  from Suc.hyps(1) [OF n] lt
  have ih: "\<And>log'. timed_dialog_tail dialog (int (length dialog)) cd timer timedinput (int (Suc i)) log' =
            Some (log' @ concat (map (tail_char (mid_gate timedinput timer) cd) (drop (Suc i) dialog)))"
    by simp
  show ?case
  proof (cases "timedinput = 0")
    case True
    then show ?thesis
      using lt ih
      by (subst timed_dialog_tail.simps)
         (simp add: i1 char_at_in_range [OF lt] d tail_char_def mid_gate_def
               del: of_nat_add of_nat_Suc)
  next
    case False
    then show ?thesis
      using lt ih
      by (subst timed_dialog_tail.simps)
         (simp add: i1 char_at_in_range [OF lt] d tail_char_def mid_gate_def
               del: of_nat_add of_nat_Suc)
  qed
qed

lemma timed_dialog_loop1_ops:
  assumes ts: "0 < ts"
  shows "j \<le> whole_ticks ts (length dialog) \<Longrightarrow>
   timed_dialog_loop1 dialog (int (length dialog)) (int ts) cd timer timedinput (int (j * ts)) log =
     Some (int (whole_ticks ts (length dialog) * ts),
           log @ concat (map (whole_tick (mid_gate timedinput timer) cd)
                   (map (\<lambda>j. take ts (drop (j * ts) dialog))
                      [j..<whole_ticks ts (length dialog)])))"
proof (induction "whole_ticks ts (length dialog) - j" arbitrary: j log)
  case 0
  then have j: "j = whole_ticks ts (length dialog)" by simp
  have "\<not> int (j * ts) + int ts < int (length dialog)"
    using whole_ticks_done [OF ts, of "length dialog"] unfolding j by linarith
  then show ?case
    by (subst timed_dialog_loop1.simps) (simp add: j)
next
  case (Suc n)
  then have lt: "j < whole_ticks ts (length dialog)"
    and n: "n = whole_ticks ts (length dialog) - Suc j" by auto
  from whole_ticks_more [OF ts lt] have more: "j * ts + ts < length dialog" .
  then have c: "int (j * ts) + int ts < int (length dialog)" by linarith
  have nx: "int (j * ts) + int ts = int (Suc j * ts)" by simp
  have tick: "timed_dialog_tick dialog (int ts) cd timer timedinput (int (j * ts)) 0 log =
      Some (log @ concat (map (tick_char (mid_gate timedinput timer) cd)
                            (take ts (drop (j * ts) dialog))))"
    using timed_dialog_tick_ops [of 0 ts "j * ts" dialog cd timer timedinput log] more by simp
  from Suc.hyps(1) [OF n] lt
  have ih: "\<And>log. timed_dialog_loop1 dialog (int (length dialog)) (int ts) cd timer timedinput
                (int (Suc j * ts)) log =
     Some (int (whole_ticks ts (length dialog) * ts),
           log @ concat (map (whole_tick (mid_gate timedinput timer) cd)
                   (map (\<lambda>j. take ts (drop (j * ts) dialog))
                      [Suc j..<whole_ticks ts (length dialog)])))"
    by simp
  show ?case
    using c lt
    by (subst timed_dialog_loop1.simps)
       (simp add: tick nx ih upt_conv_Cons whole_tick_def del: of_nat_add of_nat_mult mult_Suc)
qed

lemma drawTimedDialogText_onebyone:
  assumes "onebyone \<noteq> 0"
  shows "drawTimedDialogText textspeed chardelay headerdelay timer timedinput timedend onebyone
           headertext dialog =
     Some ([SetCursor 0 0, WriteStr headertext, Display,
            Delay (if headerdelay < 0 then 200 else headerdelay), SetCursor 0 16]
           @ reveal_ops (mid_gate timedinput (if timer < 0 then 10000 else timer))
               (unat (if textspeed = 0 then 1 else textspeed))
               (if chardelay < 0 then 10 else chardelay) dialog
           @ [mid_gate timedend (if timer < 0 then 10000 else timer)])"
proof -
  define ts where "ts = unat (if textspeed = 0 then 1 else textspeed)"
  define cd where "cd = (if chardelay < 0 then 10 else chardelay)"
  define tm where "tm = (if timer < 0 then 10000 else timer)"
  define log0 where "log0 = [SetCursor 0 0, WriteStr headertext, Display,
            Delay (if headerdelay < 0 then 200 else headerdelay), SetCursor 0 16]"
  define n where "n = whole_ticks ts (length dialog)"
  have pos: "0 < ts" unfolding ts_def by (rule unat_textspeed_pos)
  have l1: "timed_dialog_loop1 dialog (int (length dialog)) (int ts) cd tm timedinput 0 log0 =
      Some (int (n * ts),
            log0 @ concat (map (whole_tick (mid_gate timedinput tm) cd) (ticks ts n dialog)))"
    using timed_dialog_loop1_ops [OF pos, of 0 dialog cd tm timedinput log0]
    by (simp add: n_def ticks_def)
  have l2: "\<And>log. timed_dialog_tail dialog (int (length dialog)) cd tm timedinput (int (n * ts)) log =
      Some (log @ concat (map (tail_char (mid_gate timedinput tm) cd) (drop (n * ts) dialog)))"
    unfolding n_def by (rule timed_dialog_tail_ops) (rule whole_ticks_le)
  have "drawTimedDialogText textspeed chardelay headerdelay timer timedinput timedend onebyone
           headertext dialog =
     (case timed_dialog_loop1 dialog (int (length dialog)) (int ts) cd tm timedinput 0 log0 of
        None \<Rightarrow> None
      | Some (i, log1) \<Rightarrow>
          (case timed_dialog_tail dialog (int (length dialog)) cd tm timedinput i log1 of
             None \<Rightarrow> None
           | Some log2 \<Rightarrow> Some (log2 @ [mid_gate timedend tm])))"
    using assms
    unfolding drawTimedDialogText_def Let_def uint_textspeed ts_def cd_def log0_def tm_def
      mid_gate_def
    by simp
  also have "\<dots> = Some (log0 @ reveal_ops (mid_gate timedinput tm) ts cd dialog
                      @ [mid_gate timedend tm])"
    unfolding l1 by (simp add: l2 reveal_ops_def n_def [symmetric] del: of_nat_mult)
  finally show ?thesis unfolding ts_def cd_def log0_def tm_def .
qed

text \<open>What the logs of the closed form show: the text written and the gates called.\<close>

lemma written_append: "written (xs @ ys) = written xs @ written ys"
  by (induction xs rule: written.induct) simp_all

lemma gate_calls_append: "gate_calls (xs @ ys) = gate_calls xs + gate_calls ys"
  by (induction xs rule: gate_calls.induct) simp_all

lemma written_mid_gate: "written [mid_gate timed timer] = []"
  by (simp add: mid_gate_def)

lemma gate_calls_mid_gate: "gate_calls [mid_gate timed timer] = 1"
  by (simp add: mid_gate_def)

lemma written_tick_chars:
  "written [g] = [] \<Longrightarrow>
   written (concat (map (tick_char g cd) cs)) = filter (\<lambda>c. c \<noteq> marker) cs"
  by (induction cs) (simp_all add: written_append tick_char_def)

lemma written_tail_chars:
  "written [g] = [] \<Longrightarrow>
   written (concat (map (tail_char g cd) cs)) = filter (\<lambda>c. c \<noteq> marker) cs"
  by (induction cs) (simp_all add: written_append tail_char_def)

lemma gate_calls_tick_chars:
  "gate_calls [g] = 1 \<Longrightarrow>
   gate_calls (concat (map (tick_char g cd) cs)) = count_list cs marker"
  by (induction cs) (simp_all add: gate_calls_append tick_char_def)

lemma gate_calls_tail_chars:
  "gate_calls [g] = 1 \<Longrightarrow>
   gate_calls (concat (map (tail_char g cd) cs)) = count_list cs marker"
  by (induction cs) (simp_all add: gate_calls_append tail_char_def)

lemma concat_ticks: "concat (ticks ts n dialog) = take (n * ts) dialog"
proof (induction n)
  case 0
  then show ?case by (simp add: ticks_def)
next
  case (Suc n)
  have "concat (ticks ts (Suc n) dialog) = concat (ticks ts n dialog) @ take ts (drop (n * ts) dialog)"
    by (simp add: ticks_def)
  also have "\<dots> = take (n * ts + ts) dialog"
    unfolding Suc.IH by (simp add: take_add)
  finally show ?case by (simp add: add.commute)
qed

lemma written_whole_ticks:
  "written [g] = [] \<Longrightarrow>
   written (concat (map (whole_tick g cd) tks)) = filter (\<lambda>c. c \<noteq> marker) (concat tks)"
  by (induction tks) (simp_all add: written_append whole_tick_def written_tick_chars)

lemma gate_calls_whole_ticks:
  "gate_calls [g] = 1 \<Longrightarrow>
   gate_calls (concat (map (whole_tick g cd) tks)) = count_list (concat tks) marker"
  by (induction tks) (simp_all add: gate_calls_append whole_tick_def gate_calls_tick_chars)

lemma count_list_append: "count_list (xs @ ys) a = count_list xs a + count_list ys a"
  by (induction xs) simp_all

lemma written_reveal_ops:
  assumes g: "written [g] = []"
  shows "written (reveal_ops g ts cd dialog) = filter (\<lambda>c. c \<noteq> marker) dialog"
proof -
  let ?k = "whole_ticks ts (length dialog) * ts"
  have "written (reveal_ops g ts cd dialog) =
        filter (\<lambda>c. c \<noteq> marker) (take ?k dialog) @ filter (\<lambda>c. c \<noteq> marker) (drop ?k dialog)"
    unfolding reveal_ops_def
    by (simp add: written_append written_whole_ticks [OF g] written_tail_chars [OF g] concat_ticks)
  also have "\<dots> = filter (\<lambda>c. c \<noteq> marker) (take ?k dialog @ drop ?k dialog)"
    by (simp only: filter_append)
  finally show ?thesis by (simp only: append_take_drop_id)
qed

lemma gate_calls_reveal_ops:
  assumes g: "gate_calls [g] = 1"
  shows "gate_calls (reveal_ops g ts cd dialog) = count_list dialog marker"
proof -
  let ?k = "whole_ticks ts (length dialog) * ts"
  have "gate_calls (reveal_ops g ts cd dialog) =
        count_list (take ?k dialog) marker + count_list (drop ?k dialog) marker"
    unfolding reveal_ops_def
    by (simp add: gate_calls_append gate_calls_whole_ticks [OF g] gate_calls_tail_chars [OF g]
          concat_ticks)
  also have "\<dots> = count_list (take ?k dialog @ drop ?k dialog) marker"
    by (simp only: count_list_append)
  finally show ?thesis by (simp only: append_take_drop_id)
qed

lemma no_marker_glyph_reveal_ops:
  "g \<noteq> WriteChar marker \<Longrightarrow> WriteChar marker \<notin> set (reveal_ops g ts cd dialog)"
  unfolding reveal_ops_def whole_tick_def tick_char_def tail_char_def
  by auto

text \<open>
  Claim C3, as amended. For every body with k markers, the calls that \<^verbatim>\<open>drawDialogText\<close>
  and \<^verbatim>\<open>drawTimedDialogText\<close> make (every gate call an entry of the log) are these. In the
  one-by-one mode (\<^verbatim>\<open>onebyone\<close> not zero) a gate is called exactly k + 1 times and the text
  written is the header followed by the body without its markers, in the original order.
  In the instant mode (\<^verbatim>\<open>onebyone\<close> zero) a gate is called exactly once, whatever the body
  holds, and the text written is the header followed by the whole body.
\<close>

theorem dialog_gates_and_text:
  "(\<exists>log. drawDialogText textspeed chardelay headerdelay onebyone headertext dialog = Some log
         \<and> gate_calls log = (if onebyone \<noteq> 0 then count_list dialog marker + 1 else 1)
         \<and> written log =
             headertext @ (if onebyone \<noteq> 0 then filter (\<lambda>c. c \<noteq> marker) dialog else dialog))
   \<and> (\<exists>log. drawTimedDialogText textspeed chardelay headerdelay timer timedinput timedend
                onebyone headertext dialog = Some log
         \<and> gate_calls log = (if onebyone \<noteq> 0 then count_list dialog marker + 1 else 1)
         \<and> written log =
             headertext @ (if onebyone \<noteq> 0 then filter (\<lambda>c. c \<noteq> marker) dialog else dialog))"
proof (cases "onebyone = 0")
  case True
  then show ?thesis
    unfolding drawDialogText_def drawTimedDialogText_def Let_def
    by (simp add: written_append gate_calls_append)
next
  case False
  have s: "written [CallCtcSerial] = []" "gate_calls [CallCtcSerial] = 1" by simp_all
  show ?thesis
    unfolding drawDialogText_onebyone [OF False] drawTimedDialogText_onebyone [OF False]
    using False
    by (simp add: written_append gate_calls_append written_reveal_ops gate_calls_reveal_ops
          written_mid_gate gate_calls_mid_gate s)
qed

text \<open>
  Two runs of C3. The scenario: the body Hello, marker, World with one character per
  tick shows HelloWorld and calls the gate twice. The same body in the instant mode is
  written whole and the gate is called once.
\<close>

theorem dialog_gates_and_text_witness:
  "map_option gate_calls
     (drawDialogText 1 10 200 1 ''Ann'' (''Hello'' @ [marker] @ ''World'')) = Some 2
   \<and> map_option written
     (drawDialogText 1 10 200 1 ''Ann'' (''Hello'' @ [marker] @ ''World''))
       = Some (''Ann'' @ ''HelloWorld'')
   \<and> map_option gate_calls
     (drawTimedDialogText 1 10 200 3000 1 1 0 ''Ann'' (''Hello'' @ [marker] @ ''World''))
       = Some 1
   \<and> map_option written
     (drawTimedDialogText 1 10 200 3000 1 1 0 ''Ann'' (''Hello'' @ [marker] @ ''World''))
       = Some (''Ann'' @ ''Hello'' @ [marker] @ ''World'')"
proof -
  let ?body = "''Hello'' @ [marker] @ ''World''"
  from dialog_gates_and_text [of 1 10 200 1 "''Ann''" ?body]
  obtain log where
    "drawDialogText 1 10 200 1 ''Ann'' ?body = Some log"
    "gate_calls log = (if (1 :: uint8_t) \<noteq> 0 then count_list ?body marker + 1 else 1)"
    "written log =
       ''Ann'' @ (if (1 :: uint8_t) \<noteq> 0 then filter (\<lambda>c. c \<noteq> marker) ?body else ?body)"
    by blast
  then have a: "map_option gate_calls (drawDialogText 1 10 200 1 ''Ann'' ?body) = Some 2"
    "map_option written (drawDialogText 1 10 200 1 ''Ann'' ?body)
       = Some (''Ann'' @ ''HelloWorld'')"
    by (simp_all add: marker_def)
  from dialog_gates_and_text [of 1 10 200 0 "''Ann''" ?body 3000 1 1]
  obtain log' where
    "drawTimedDialogText 1 10 200 3000 1 1 0 ''Ann'' ?body = Some log'"
    "gate_calls log' = (if (0 :: uint8_t) \<noteq> 0 then count_list ?body marker + 1 else 1)"
    "written log' =
       ''Ann'' @ (if (0 :: uint8_t) \<noteq> 0 then filter (\<lambda>c. c \<noteq> marker) ?body else ?body)"
    by blast
  then have b: "map_option gate_calls
       (drawTimedDialogText 1 10 200 3000 1 1 0 ''Ann'' ?body) = Some 1"
    "map_option written (drawTimedDialogText 1 10 200 3000 1 1 0 ''Ann'' ?body)
       = Some (''Ann'' @ ?body)"
    by simp_all
  from a b show ?thesis by simp
qed

text \<open>
  C3 as it is worded fails in the instant mode (\<^verbatim>\<open>onebyone\<close> zero, lines 370--374): the
  body a, marker, b has one marker, the gate is called once and not twice, and the
  string is written whole.
\<close>

theorem dialog_gates_and_text_counterexample:
  "map_option gate_calls (drawDialogText 1 10 200 0 [] [CHR ''a'', marker, CHR ''b'']) = Some 1
   \<and> count_list [CHR ''a'', marker, CHR ''b''] marker + 1 = 2
   \<and> map_option written (drawDialogText 1 10 200 0 [] [CHR ''a'', marker, CHR ''b''])
       = Some [CHR ''a'', marker, CHR ''b'']"
  by (simp add: drawDialogText_def marker_def)

text \<open>
  Claim C8, as amended. In the one-by-one mode a marker is never written as a glyph and
  every marker calls the gate, after which the next character follows. A marker in a
  whole tick (first loop) is handled by a present, a wait of \<^verbatim>\<open>chardelay\<close> and the gate; a
  marker among the trailing characters (second loop, line 365) calls the gate alone, with
  no present and no wait of its own. The log of the function is given in full.
\<close>

theorem marker_handling:
  assumes "onebyone \<noteq> 0"
  shows "drawDialogText textspeed chardelay headerdelay onebyone headertext dialog =
     Some ([SetCursor 0 0, WriteStr headertext, Display,
            Delay (if headerdelay < 0 then 200 else headerdelay), SetCursor 0 16]
           @ concat (map (\<lambda>cs. concat (map (\<lambda>c. if c \<noteq> marker then [WriteChar c]
                                   else [Display, Delay (if chardelay < 0 then 10 else chardelay),
                                         CallCtcSerial]) cs)
                                @ [Display, Delay (if chardelay < 0 then 10 else chardelay)])
                       (ticks (unat (if textspeed = 0 then 1 else textspeed))
                          (whole_ticks (unat (if textspeed = 0 then 1 else textspeed))
                             (length dialog)) dialog))
           @ concat (map (\<lambda>c. if c \<noteq> marker
                               then [WriteChar c, Display,
                                     Delay (if chardelay < 0 then 10 else chardelay)]
                               else [CallCtcSerial])
                       (drop (whole_ticks (unat (if textspeed = 0 then 1 else textspeed))
                                (length dialog)
                              * unat (if textspeed = 0 then 1 else textspeed)) dialog))
           @ [CallCtcSerial])
     \<and> (\<exists>log. drawDialogText textspeed chardelay headerdelay onebyone headertext dialog
                  = Some log \<and> WriteChar marker \<notin> set log)"
proof -
  have a: "(\<lambda>cs. concat (map (\<lambda>c. if c \<noteq> marker then [WriteChar c]
                                   else [Display, Delay cd, CallCtcSerial]) cs)
                                @ [Display, Delay cd]) = whole_tick CallCtcSerial cd" for cd
    by (rule ext) (simp add: whole_tick_def tick_char_def [abs_def])
  have b: "(\<lambda>c. if c \<noteq> marker then [WriteChar c, Display, Delay cd] else [CallCtcSerial])
           = tail_char CallCtcSerial cd" for cd
    by (rule ext) (simp add: tail_char_def)
  have "WriteChar marker \<notin> set ([SetCursor 0 0, WriteStr headertext, Display,
            Delay (if headerdelay < 0 then 200 else headerdelay), SetCursor 0 16]
           @ reveal_ops CallCtcSerial (unat (if textspeed = 0 then 1 else textspeed))
               (if chardelay < 0 then 10 else chardelay) dialog
           @ [CallCtcSerial])"
    using no_marker_glyph_reveal_ops [of CallCtcSerial] by simp
  then show ?thesis
    unfolding a b drawDialogText_onebyone [OF assms]
    by (simp add: reveal_ops_def)
qed

text \<open>The closed form of C8 on an example, evaluated.\<close>

lemma marker_handling_example:
  "[SetCursor 0 0, WriteStr [], Display, Delay 200, SetCursor 0 16]
     @ concat (map (\<lambda>cs. concat (map (\<lambda>c. if c \<noteq> marker then [WriteChar c]
                                   else [Display, Delay 10, CallCtcSerial]) cs)
                                @ [Display, Delay 10])
                 (ticks 2 (whole_ticks 2 (length (''ab'' @ [marker] @ ''cd'' @ [marker])))
                    (''ab'' @ [marker] @ ''cd'' @ [marker])))
     @ concat (map (\<lambda>c. if c \<noteq> marker then [WriteChar c, Display, Delay 10]
                         else [CallCtcSerial])
                 (drop (whole_ticks 2 (length (''ab'' @ [marker] @ ''cd'' @ [marker])) * 2)
                    (''ab'' @ [marker] @ ''cd'' @ [marker])))
     @ [CallCtcSerial]
   = [SetCursor 0 0, WriteStr [], Display, Delay 200, SetCursor 0 16,
      WriteChar CHR ''a'', WriteChar CHR ''b'', Display, Delay 10,
      Display, Delay 10, CallCtcSerial, WriteChar CHR ''c'', Display, Delay 10,
      WriteChar CHR ''d'', Display, Delay 10, CallCtcSerial, CallCtcSerial]"
  by code_simp

text \<open>
  A run of C8 with two characters per tick: the first marker falls into the second whole
  tick, the second marker is the last trailing character.
\<close>

theorem marker_handling_witness:
  "drawDialogText 2 10 200 1 [] (''ab'' @ [marker] @ ''cd'' @ [marker]) =
     Some [SetCursor 0 0, WriteStr [], Display, Delay 200, SetCursor 0 16,
           WriteChar CHR ''a'', WriteChar CHR ''b'', Display, Delay 10,
           Display, Delay 10, CallCtcSerial, WriteChar CHR ''c'', Display, Delay 10,
           WriteChar CHR ''d'', Display, Delay 10, CallCtcSerial, CallCtcSerial]"
proof -
  have o: "(1 :: uint8_t) \<noteq> 0" by simp
  have n: "unat (if (2 :: uint8_t) = 0 then 1 else (2 :: uint8_t)) = 2"
          "(if (10 :: int) < 0 then 10 else 10) = 10"
          "(if (200 :: int) < 0 then 200 else 200) = 200"
    by simp_all
  from marker_handling [OF o, of 2 10 200 "[]" "''ab'' @ [marker] @ ''cd'' @ [marker]"]
  show ?thesis unfolding n marker_handling_example by simp
qed

text \<open>
  C8 as it is worded fails for a marker among the trailing characters: for a body that
  is one marker the gate is called at once, with neither a present nor a wait of
  \<^verbatim>\<open>chardelay\<close> (10) anywhere after the header.
\<close>

theorem marker_handling_counterexample:
  "drawDialogText 1 10 200 1 [] [marker] =
     Some [SetCursor 0 0, WriteStr [], Display, Delay 200, SetCursor 0 16,
           CallCtcSerial, CallCtcSerial]"
  by code_simp

text \<open>
  Claim C9, as amended. Malformed numbers are not rejected: a call with them makes the
  calls of the call with the recommended values. A \<^verbatim>\<open>textspeed\<close> of 0 is 1, a negative
  \<^verbatim>\<open>chardelay\<close> 10, a negative \<^verbatim>\<open>headerdelay\<close> 200, a negative \<^verbatim>\<open>timer\<close> 10000, and negative
  \<^verbatim>\<open>initialdelay\<close>, \<^verbatim>\<open>enddelay\<close> and \<^verbatim>\<open>scrolldelay\<close> 500, 500 and 5. The bitmap is not among
  the values normalised. (\<^verbatim>\<open>textspeed\<close> is a \<^verbatim>\<open>uint8_t\<close>: the function sees no negative
  value of it, and what a caller's negative argument turns into is not part of this
  statement.)
\<close>

theorem parameters_normalised:
  "drawDialogText textspeed chardelay headerdelay onebyone headertext dialog =
     drawDialogText (if textspeed = 0 then 1 else textspeed)
       (if chardelay < 0 then 10 else chardelay)
       (if headerdelay < 0 then 200 else headerdelay) onebyone headertext dialog
   \<and> drawTimedDialogText textspeed chardelay headerdelay timer timedinput timedend onebyone
       headertext dialog =
     drawTimedDialogText (if textspeed = 0 then 1 else textspeed)
       (if chardelay < 0 then 10 else chardelay)
       (if headerdelay < 0 then 200 else headerdelay)
       (if timer < 0 then 10000 else timer) timedinput timedend onebyone headertext dialog
   \<and> drawVerticalScrollingBitmap initialdelay enddelay scrolldelay scrollstep snaptoend
       allowoverflow offset_x offset_y end_y bmp =
     drawVerticalScrollingBitmap (if initialdelay < 0 then 500 else initialdelay)
       (if enddelay < 0 then 500 else enddelay)
       (if scrolldelay < 0 then 5 else scrolldelay) scrollstep snaptoend
       allowoverflow offset_x offset_y end_y bmp"
proof -
  have d1: "drawDialogText textspeed chardelay headerdelay onebyone headertext dialog =
     drawDialogText (if textspeed = 0 then 1 else textspeed)
       (if chardelay < 0 then 10 else chardelay)
       (if headerdelay < 0 then 200 else headerdelay) onebyone headertext dialog"
    unfolding drawDialogText_def Let_def by (simp add: uint_0_iff)
  have t1: "drawTimedDialogText textspeed chardelay headerdelay timer timedinput timedend onebyone
       headertext dialog =
     drawTimedDialogText (if textspeed = 0 then 1 else textspeed)
       (if chardelay < 0 then 10 else chardelay)
       (if headerdelay < 0 then 200 else headerdelay)
       (if timer < 0 then 10000 else timer) timedinput timedend onebyone headertext dialog"
    unfolding drawTimedDialogText_def Let_def by (simp add: uint_0_iff)
  have s1: "drawVerticalScrollingBitmap initialdelay enddelay scrolldelay scrollstep snaptoend
       allowoverflow offset_x offset_y end_y bmp =
     drawVerticalScrollingBitmap (if initialdelay < 0 then 500 else initialdelay)
       (if enddelay < 0 then 500 else enddelay)
       (if scrolldelay < 0 then 5 else scrolldelay) scrollstep snaptoend
       allowoverflow offset_x offset_y end_y bmp"
    unfolding drawVerticalScrollingBitmap_def Let_def by simp
  from d1 t1 s1 show ?thesis by blast
qed

text \<open>
  C9 as it is worded fails for the bitmap: a bitmap of size zero is drawn as it is, with
  width 0 and height 0, while the negative delays of the same call become 500.
\<close>

theorem parameters_normalised_counterexample:
  "drawVerticalScrollingBitmap (- 1) (- 1) (- 1) 1 False False 0 0 0
       \<lparr>bitmap = [], width = 0, height = 0\<rparr> =
     Some [DrawBitmap 0 0 \<lparr>bitmap = [], width = 0, height = 0\<rparr> ON, Display, Delay 500,
           DrawBitmap 0 64 \<lparr>bitmap = [], width = 0, height = 0\<rparr> ON, Display, Delay 500]"
  by code_simp

text \<open>
  Runs of C9: the calls with a speed of 0 and negative delays are the calls with the
  recommended values.
\<close>

theorem parameters_normalised_witness:
  "drawDialogText 0 (- 1) (- 1) 1 ''Ann'' ''Hi'' = drawDialogText 1 10 200 1 ''Ann'' ''Hi''
   \<and> drawTimedDialogText 0 (- 1) (- 1) (- 1) 1 1 1 ''Ann'' ''Hi''
       = drawTimedDialogText 1 10 200 10000 1 1 1 ''Ann'' ''Hi''
   \<and> drawVerticalScrollingBitmap (- 1) (- 1) (- 1) 2 False False 0 0 0
         \<lparr>bitmap = [], width = 128, height = 128\<rparr>
       = drawVerticalScrollingBitmap 500 500 5 2 False False 0 0 0
           \<lparr>bitmap = [], width = 128, height = 128\<rparr>"
  using parameters_normalised [of 0 "- 1" "- 1" 1 "''Ann''" "''Hi''" "- 1" 1 1 "- 1" "- 1" "- 1"
      2 False False 0 0 0 "\<lparr>bitmap = [], width = 128, height = 128\<rparr>"]
  by simp

section \<open>Properties of the gates\<close>

text \<open>
  A run of \<^verbatim>\<open>ctcSerial\<close> in full: nothing is queued, the input arrives at the third poll,
  100 ms after the start.
\<close>

lemma demo_run:
  "map_option oplog (ctcSerial (demo_machine 1 [False, False, True, False] [0, 100])) =
     Some [SerialAvailable False, Millis 0, SerialAvailable False, Millis 100,
           SerialAvailable True, SetCursor 116 0, SetTextColor 0, WriteStr ''>>'', Display,
           SerialAvailable False, SetCursor 12 16, SetTextColor 1]"
  by code_simp

text \<open>
  A run across the wrap of the clock: its readings are 4294967000 and then 300, which
  the \<^verbatim>\<open>long\<close> variables hold as -296 and 300. Their difference is 596 and the indicator
  is toggled on.
\<close>

lemma clock_wrap_run:
  "map_option (display_ops \<circ> oplog)
     (ctcSerial (demo_machine 1 [False, False, True, False] [4294967000, 300])) =
   Some [SetCursor 116 0, SetTextColor 1, WriteStr ''>>'', Display,
         SetCursor 116 0, SetTextColor 0, WriteStr ''>>'', Display,
         SetCursor 12 16, SetTextColor 1]"
  by code_simp

text \<open>
  What the discarding loop and the waiting loop of \<^verbatim>\<open>ctcSerial\<close> do on an input of a
  given shape: the first reads and drops the \<open>n\<close> bytes that wait; the second returns at
  the first byte it sees, with no call on the display while no difference of the clock
  exceeds 500, and does not return on an input without a byte.
\<close>

lemma serial_in_draw_indicator [simp]:
  "serial_in (draw_indicator color m) = serial_in m"
  "clock (draw_indicator color m) = clock m"
  "oplog (draw_indicator color m) =
     oplog m @ [SetCursor 116 0, SetTextColor (unat color), WriteStr ''>>'', Display]"
  by (simp_all add: draw_indicator_def display_frame_def write_str_def setTextColor_def
        setCursor_def)

lemma serial_flush_drains:
  "serial_in m = replicate n True @ False # rest \<Longrightarrow>
   \<exists>m'. serial_flush m = Some m' \<and> serial_in m' = rest \<and> clock m' = clock m
       \<and> oplog m' = oplog m @ discard_ops n"
proof (induction n arbitrary: m)
  case 0
  then show ?case
    by (subst serial_flush.simps) (simp add: Serial_available_def discard_ops_def)
next
  case (Suc n)
  let ?m1 = "Serial_read (m\<lparr>serial_in := replicate n True @ False # rest,
                           oplog := oplog m @ [SerialAvailable True]\<rparr>)"
  have "serial_in ?m1 = replicate n True @ False # rest" by (simp add: Serial_read_def)
  from Suc.IH [OF this] obtain m' where
    "serial_flush ?m1 = Some m'" "serial_in m' = rest" "clock m' = clock ?m1"
    "oplog m' = oplog ?m1 @ discard_ops n"
    by blast
  with Suc.prems show ?case
    by (subst serial_flush.simps)
       (simp add: Serial_available_def Serial_read_def discard_ops_def)
qed

lemma ctcSerial_wait_prompt:
  "serial_in m = replicate j False @ True # rest \<Longrightarrow> clock m = ts @ crest \<Longrightarrow>
   length ts = j \<Longrightarrow> \<forall>t\<in>set ts. sint (t - prev) \<le> 500 \<Longrightarrow>
   \<exists>m'. ctcSerial_wait prev color m = Some m' \<and> serial_in m' = rest \<and> clock m' = crest
       \<and> oplog m' = oplog m @ idle_ops ts @ [SerialAvailable True]"
proof (induction j arbitrary: m ts)
  case 0
  then show ?case
    by (subst ctcSerial_wait.simps) (simp add: Serial_available_def idle_ops_def)
next
  case (Suc j)
  from Suc.prems(3) obtain t ts' where ts: "ts = t # ts'" and l: "length ts' = j"
    by (cases ts) auto
  let ?m2 = "m\<lparr>serial_in := replicate j False @ True # rest,
               oplog := oplog m @ [SerialAvailable False], clock := ts' @ crest,
               oplog := oplog m @ [SerialAvailable False] @ [Millis t]\<rparr>"
  have "serial_in ?m2 = replicate j False @ True # rest" "clock ?m2 = ts' @ crest" by simp_all
  from Suc.IH [OF this l] Suc.prems(4) ts obtain m' where
    "ctcSerial_wait prev color ?m2 = Some m'" "serial_in m' = rest" "clock m' = crest"
    "oplog m' = oplog ?m2 @ idle_ops ts' @ [SerialAvailable True]"
    by auto
  with Suc.prems ts show ?case
    by (subst ctcSerial_wait.simps)
       (simp add: Serial_available_def millis_def idle_ops_def)
qed

lemma ctcSerial_wait_starves:
  "serial_in m = replicate j False \<Longrightarrow> ctcSerial_wait prev color m = None"
proof (induction j arbitrary: m prev color)
  case 0
  then show ?case
    by (subst ctcSerial_wait.simps) (simp add: Serial_available_def)
next
  case (Suc j)
  let ?m1 = "m\<lparr>serial_in := replicate j False, oplog := oplog m @ [SerialAvailable False]\<rparr>"
  have av: "Serial_available m = Some (False, ?m1)"
    using Suc.prems by (simp add: Serial_available_def)
  show ?case
  proof (cases "clock m")
    case Nil
    then show ?thesis
      by (subst ctcSerial_wait.simps) (simp add: av millis_def)
  next
    case (Cons t rest)
    let ?m2 = "?m1\<lparr>clock := rest, oplog := oplog ?m1 @ [Millis t]\<rparr>"
    have ml: "millis ?m1 = Some (t, ?m2)" using Cons by (simp add: millis_def)
    have "serial_in ?m2 = replicate j False" by simp
    then have w1: "ctcSerial_wait prev color ?m2 = None" by (rule Suc.IH)
    have "serial_in (draw_indicator (toggle color) ?m2) = replicate j False" by simp
    then have w2: "ctcSerial_wait t (toggle color) (draw_indicator (toggle color) ?m2) = None"
      by (rule Suc.IH)
    from w1 w2 show ?thesis
      by (subst ctcSerial_wait.simps) (simp add: av ml)
  qed
qed

text \<open>
  Claim C4, as amended. \<^verbatim>\<open>ctcSerial\<close> first reads and drops every byte that is already
  queued, so an event queued before the call does not end the wait: on an input that
  holds only queued bytes (machine \<open>q\<close>) the gate does not return. When, after the \<open>n\<close>
  queued bytes, a new event is seen (after \<open>j\<close> polls without one) before a reading of
  the clock exceeds the start \<open>t0\<close> by more than 500 ms (the difference as the code takes
  it), the gate returns and the indicator is never toggled on. Its calls are then
  exactly: the \<open>n\<close> bytes read and dropped, the start time read, the polls, the exit
  (the indicator drawn in colour 0 and one present), the bytes read and dropped again,
  the cursor set back and the colour set to 1.
\<close>

theorem gate_returns_on_fresh_input:
  assumes "serial_in m = replicate n True @ False # replicate j False @ True
                           # replicate k True @ False # rest"
    and "clock m = t0 # ts @ crest"
    and "length ts = j"
    and "\<forall>t\<in>set ts. sint (t - t0) \<le> 500"
    and "serial_in q = replicate n True @ False # replicate i False"
  shows "(\<exists>m'. ctcSerial m = Some m'
           \<and> oplog m' =
               oplog m @ discard_ops n @ [Millis t0] @ idle_ops ts @ [SerialAvailable True]
               @ [SetCursor 116 0, SetTextColor 0, WriteStr ''>>'', Display]
               @ discard_ops k
               @ [SetCursor (cursor_x m) (cursor_y m), SetTextColor 1]
           \<and> serial_in m' = rest \<and> clock m' = crest)
       \<and> ctcSerial q = None"
proof -
  from serial_flush_drains [OF assms(1)] obtain m1 where
    m1: "serial_flush m = Some m1"
        "serial_in m1 = replicate j False @ True # replicate k True @ False # rest"
        "clock m1 = clock m" "oplog m1 = oplog m @ discard_ops n"
    by blast
  define m2 where "m2 = m1\<lparr>clock := ts @ crest, oplog := oplog m1 @ [Millis t0]\<rparr>"
  have ml: "millis m1 = Some (t0, m2)"
    using m1(3) assms(2) by (simp add: millis_def m2_def)
  have "serial_in m2 = replicate j False @ True # replicate k True @ False # rest"
       "clock m2 = ts @ crest"
    using m1(2) by (simp_all add: m2_def)
  from ctcSerial_wait_prompt [OF this assms(3) assms(4), of 0] obtain m3 where
    m3: "ctcSerial_wait t0 0 m2 = Some m3" "serial_in m3 = replicate k True @ False # rest"
        "clock m3 = crest"
        "oplog m3 = oplog m2 @ idle_ops ts @ [SerialAvailable True]"
    by blast
  have "serial_in (draw_indicator 0 m3) = replicate k True @ False # rest"
    using m3(2) by simp
  from serial_flush_drains [OF this] obtain m4 where
    m4: "serial_flush (draw_indicator 0 m3) = Some m4" "serial_in m4 = rest"
        "clock m4 = clock (draw_indicator 0 m3)"
        "oplog m4 = oplog (draw_indicator 0 m3) @ discard_ops k"
    by blast
  have r: "ctcSerial m = Some (setTextColor 1 (setCursor (cursor_x m) (cursor_y m) m4))"
    unfolding ctcSerial_def Let_def by (simp add: m1(1) ml m3(1) m4(1))
  have "oplog (setTextColor 1 (setCursor (cursor_x m) (cursor_y m) m4)) =
      oplog m @ discard_ops n @ [Millis t0] @ idle_ops ts @ [SerialAvailable True]
      @ [SetCursor 116 0, SetTextColor 0, WriteStr ''>>'', Display]
      @ discard_ops k
      @ [SetCursor (cursor_x m) (cursor_y m), SetTextColor 1]"
    using m4(4) m3(4) m1(4) by (simp add: setTextColor_def setCursor_def m2_def)
  moreover have "serial_in (setTextColor 1 (setCursor (cursor_x m) (cursor_y m) m4)) = rest"
    "clock (setTextColor 1 (setCursor (cursor_x m) (cursor_y m) m4)) = crest"
    using m4(2,3) m3(3) by (simp_all add: setTextColor_def setCursor_def)
  ultimately have first: "\<exists>m'. ctcSerial m = Some m'
           \<and> oplog m' =
               oplog m @ discard_ops n @ [Millis t0] @ idle_ops ts @ [SerialAvailable True]
               @ [SetCursor 116 0, SetTextColor 0, WriteStr ''>>'', Display]
               @ discard_ops k
               @ [SetCursor (cursor_x m) (cursor_y m), SetTextColor 1]
           \<and> serial_in m' = rest \<and> clock m' = crest"
    using r by blast
  from serial_flush_drains [OF assms(5)] obtain q1 where
    q1: "serial_flush q = Some q1" "serial_in q1 = replicate i False"
    by blast
  have "ctcSerial q = None"
  proof (cases "millis q1")
    case None
    then show ?thesis unfolding ctcSerial_def Let_def by (simp add: q1(1))
  next
    case (Some p)
    obtain t q2 where p: "p = (t, q2)" by (cases p)
    with Some have "serial_in q2 = replicate i False"
      using q1(2) by (auto simp: millis_def split: list.splits)
    from ctcSerial_wait_starves [OF this] Some p show ?thesis
      unfolding ctcSerial_def Let_def by (simp add: q1(1))
  qed
  with first show ?thesis by blast
qed

text \<open>
  A run of C4: two bytes are queued and dropped, the new event is seen at the third
  poll, 500 ms after the start. On the same clock, the two queued bytes alone do not end
  the wait.
\<close>

theorem gate_returns_on_fresh_input_witness:
  "map_option oplog
     (ctcSerial (demo_machine 1 [True, True, False, False, False, True, True, False]
                   [1000, 1200, 1500])) =
   Some [SerialAvailable True, SerialRead, SerialAvailable True, SerialRead,
         SerialAvailable False, Millis 1000,
         SerialAvailable False, Millis 1200, SerialAvailable False, Millis 1500,
         SerialAvailable True,
         SetCursor 116 0, SetTextColor 0, WriteStr ''>>'', Display,
         SerialAvailable True, SerialRead, SerialAvailable False,
         SetCursor 12 16, SetTextColor 1]
   \<and> ctcSerial (demo_machine 1 [True, True, False, False, False] [1000, 1200, 1500]) = None"
proof -
  let ?m = "demo_machine 1 [True, True, False, False, False, True, True, False]
              [1000, 1200, 1500]"
  let ?q = "demo_machine 1 [True, True, False, False, False] [1000, 1200, 1500]"
  have a: "serial_in ?m = replicate 2 True @ False # replicate 2 False @ True
                            # replicate 1 True @ False # []"
    by (simp add: demo_machine_def numeral_2_eq_2)
  have b: "clock ?m = 1000 # [1200, 1500] @ []" by (simp add: demo_machine_def)
  have c: "length [1200, 1500 :: uint32_t] = 2" by simp
  have d: "\<forall>t\<in>set [1200, 1500 :: uint32_t]. sint (t - 1000) \<le> 500" by simp
  have e: "serial_in ?q = replicate 2 True @ False # replicate 2 False"
    by (simp add: demo_machine_def numeral_2_eq_2)
  from gate_returns_on_fresh_input [OF a b c d e] show ?thesis
    by (auto simp add: demo_machine_def discard_ops_def idle_ops_def numeral_2_eq_2)
qed

text \<open>
  C4 as it is worded fails: with an event queued before the call (the first poll finds
  a byte), the gate drops it and waits; the next event comes after 600 ms and the
  indicator has been toggled on before the gate returns. When no further event comes,
  the gate does not return within the observed input.
\<close>

theorem gate_returns_on_fresh_input_counterexample:
  "map_option (display_ops \<circ> oplog)
     (ctcSerial (demo_machine 1 [True, False, False, True, False] [0, 600])) =
   Some [SetCursor 116 0, SetTextColor 1, WriteStr ''>>'', Display,
         SetCursor 116 0, SetTextColor 0, WriteStr ''>>'', Display,
         SetCursor 12 16, SetTextColor 1]
   \<and> ctcSerial (demo_machine 1 [True, False, False, False] [0, 100, 200]) = None"
  by code_simp

text \<open>
  Claim C5, as amended. Whenever \<^verbatim>\<open>ctcSerial\<close> or \<^verbatim>\<open>ctcTimedSerial\<close> returns, the cursor
  is at the position it had before the call, and the text colour is 1, whatever it was
  before the call.
\<close>

theorem gate_restores_cursor:
  assumes "ctcSerial m = Some m' \<or> ctcTimedSerial timerMS m = Some m'"
  shows "cursor_x m' = cursor_x m \<and> cursor_y m' = cursor_y m \<and> textcolor m' = 1"
  using assms unfolding ctcSerial_def ctcTimedSerial_def Let_def
  by (auto split: option.splits simp: setTextColor_def setCursor_def)

text \<open>
  Two runs of C5, one of each gate, both with the indicator toggled on the way; the
  second one ends by its timer.
\<close>

theorem gate_restores_cursor_witness:
  "map_option (\<lambda>m'. (cursor_x m', cursor_y m', textcolor m'))
     (ctcSerial (demo_machine 1 [False, False, True, False] [0, 600])) = Some (12, 16, 1)
   \<and> map_option (\<lambda>m'. (cursor_x m', cursor_y m', textcolor m'))
     (ctcTimedSerial 1000 (demo_machine 1 [False, False, False, False, False] [0, 0, 0, 600, 1200]))
       = Some (12, 16, 1)"
proof -
  let ?a = "demo_machine 1 [False, False, True, False] [0, 600]"
  let ?b = "demo_machine 1 [False, False, False, False, False] [0, 0, 0, 600, 1200]"
  have "ctcSerial ?a \<noteq> None" by code_simp
  then obtain ma where ma: "ctcSerial ?a = Some ma" by blast
  have "ctcTimedSerial 1000 ?b \<noteq> None" by code_simp
  then obtain mb where mb: "ctcTimedSerial 1000 ?b = Some mb" by blast
  from gate_restores_cursor [of ?a ma 0] gate_restores_cursor [of ?b mb 1000] ma mb
  show ?thesis by (simp add: demo_machine_def)
qed

text \<open>
  C5 as it is worded fails for the colour: a caller whose text colour is 0 finds it 1
  after the call (line 500).
\<close>

theorem gate_restores_cursor_counterexample:
  "map_option textcolor (ctcSerial (demo_machine 0 [False, True, False] [0])) = Some 1
   \<and> textcolor (demo_machine 0 [False, True, False] [0]) = 0"
  by code_simp

text \<open>
  The waiting loop of \<^verbatim>\<open>ctcTimed\<close> is that of \<^verbatim>\<open>ctcTimedSerial\<close>, and \<^verbatim>\<open>ctcTimedSerial\<close> reads
  no pin.
\<close>

lemma ctcTimed_wait_eq:
  "ctcTimed_wait button timerMS basetime prev now color m =
   ctcTimedSerial_wait timerMS basetime prev now color m"
proof (induction timerMS basetime prev now color m rule: ctcTimedSerial_wait.induct)
  case (1 timerMS basetime prev now color m)
  show ?case
    by (subst ctcTimed_wait.simps, subst ctcTimedSerial_wait.simps)
       (auto split: option.splits simp: 1)
qed

lemma pin_in_simps [simp]:
  "pin_in (setCursor x y m) = pin_in m"
  "pin_in (setTextColor c m) = pin_in m"
  "pin_in (write_str s m) = pin_in m"
  "pin_in (display_frame m) = pin_in m"
  "pin_in (Serial_read m) = pin_in m"
  "pin_in (draw_indicator color m) = pin_in m"
  by (simp_all add: setCursor_def setTextColor_def write_str_def display_frame_def
        Serial_read_def draw_indicator_def)

lemma Serial_available_pin: "Serial_available m = Some (a, m') \<Longrightarrow> pin_in m' = pin_in m"
  by (auto simp: Serial_available_def split: list.splits)

lemma millis_pin: "millis m = Some (t, m') \<Longrightarrow> pin_in m' = pin_in m"
  by (auto simp: millis_def split: list.splits)

lemma serial_flush_pin: "serial_flush m = Some m' \<Longrightarrow> pin_in m' = pin_in m"
proof (induction m rule: serial_flush.induct)
  case (1 m)
  from "1.prems" obtain a m1 where av: "Serial_available m = Some (a, m1)"
    and r: "(if a then serial_flush (Serial_read m1) else Some m1) = Some m'"
    by (subst (asm) serial_flush.simps) (auto split: option.splits)
  show ?case
  proof (cases a)
    case True
    with r have "serial_flush (Serial_read m1) = Some m'" by simp
    with "1.IH" av True have "pin_in m' = pin_in (Serial_read m1)" by auto
    with Serial_available_pin [OF av] show ?thesis by simp
  next
    case False
    with r Serial_available_pin [OF av] show ?thesis by simp
  qed
qed

lemma ctcTimedSerial_wait_pin:
  "ctcTimedSerial_wait timerMS basetime prev now color m = Some m' \<Longrightarrow> pin_in m' = pin_in m"
proof (induction timerMS basetime prev now color m rule: ctcTimedSerial_wait.induct)
  case (1 timerMS basetime prev now color m)
  from "1.prems" obtain a m1 where av: "Serial_available m = Some (a, m1)"
    by (subst (asm) ctcTimedSerial_wait.simps) (auto split: option.splits)
  note p1 = Serial_available_pin [OF av]
  show ?case
  proof (cases "\<not> a \<and> sint (now - basetime) < timerMS")
    case False
    with "1.prems" av p1 show ?thesis
      by (subst (asm) ctcTimedSerial_wait.simps) auto
  next
    case True
    with "1.prems" av obtain now' m2 where ml: "millis m1 = Some (now', m2)"
      by (subst (asm) ctcTimedSerial_wait.simps) (auto split: option.splits)
    note p2 = millis_pin [OF ml]
    show ?thesis
    proof (cases "sint (now' - prev) > 500")
      case late: True
      with "1.prems" av True ml
      have "ctcTimedSerial_wait timerMS basetime now' now' (toggle color)
              (draw_indicator (toggle color) m2) = Some m'"
        by (subst (asm) ctcTimedSerial_wait.simps) auto
      with "1.IH"(1) av True ml late have "pin_in m' = pin_in (draw_indicator (toggle color) m2)"
        by auto
      with p1 p2 show ?thesis by simp
    next
      case early: False
      with "1.prems" av True ml
      have "ctcTimedSerial_wait timerMS basetime prev now' color m2 = Some m'"
        by (subst (asm) ctcTimedSerial_wait.simps) auto
      with "1.IH"(2) av True ml early have "pin_in m' = pin_in m2"
        by auto
      with p1 p2 show ?thesis by simp
    qed
  qed
qed

lemma ctcTimedSerial_pin: "ctcTimedSerial timerMS m = Some m' \<Longrightarrow> pin_in m' = pin_in m"
  unfolding ctcTimedSerial_def Let_def
  by (auto split: option.splits
        dest!: serial_flush_pin millis_pin ctcTimedSerial_wait_pin)

text \<open>
  Claim C10. For every machine (display state, serial input, clock), timeout and button,
  \<^verbatim>\<open>ctcTimed\<close> yields what \<^verbatim>\<open>ctcTimedSerial\<close> yields: the same final state and the same log
  of calls, or no return for both. It reads nothing from the pins.
\<close>

theorem ctcTimed_ignores_button:
  "ctcTimed button timerMS m = ctcTimedSerial timerMS m
   \<and> map_option pin_in (ctcTimed button timerMS m)
       = map_option (\<lambda>m'. pin_in m) (ctcTimed button timerMS m)"
proof -
  have e: "ctcTimed button timerMS m = ctcTimedSerial timerMS m"
    unfolding ctcTimed_def ctcTimedSerial_def ctcTimed_wait_eq ..
  show ?thesis
    unfolding e by (cases "ctcTimedSerial timerMS m") (simp_all add: ctcTimedSerial_pin)
qed

text \<open>
  A run of C10 on pin 7, with input for the pin that stays unread.
\<close>

theorem ctcTimed_ignores_button_witness:
  "ctcTimed 7 1000 (demo_machine 1 [False, False, True, False] [0, 0, 0, 600]
                      \<lparr>pin_in := [True, False]\<rparr>) =
   ctcTimedSerial 1000 (demo_machine 1 [False, False, True, False] [0, 0, 0, 600]
                          \<lparr>pin_in := [True, False]\<rparr>)
   \<and> map_option pin_in
       (ctcTimed 7 1000 (demo_machine 1 [False, False, True, False] [0, 0, 0, 600]
                           \<lparr>pin_in := [True, False]\<rparr>)) = Some [True, False]"
proof -
  let ?m = "demo_machine 1 [False, False, True, False] [0, 0, 0, 600]
              \<lparr>pin_in := [True, False]\<rparr>"
  have "ctcTimed 7 1000 ?m \<noteq> None" by code_simp
  then obtain m' where r: "ctcTimed 7 1000 ?m = Some m'" by blast
  from ctcTimed_ignores_button [of 7 1000 ?m]
  have e: "ctcTimed 7 1000 ?m = ctcTimedSerial 1000 ?m"
    and p: "map_option pin_in (ctcTimed 7 1000 ?m)
              = map_option (\<lambda>m'. pin_in ?m) (ctcTimed 7 1000 ?m)"
    by blast+
  from p have "map_option pin_in (ctcTimed 7 1000 ?m) = Some [True, False]"
    unfolding r by simp
  with e show ?thesis by simp
qed

end
